theory Spec2Isabelle
  imports Main "HOL-Library.Word" "HOL-Library.List_Lexorder"
begin

unbundle bit_operations_syntax

section \<open>Values of the host language\<close>

text \<open>
  A \<open>Uint8Array\<close> is a list of bytes.  A JavaScript string is a list of UTF-16 code
  units.  The numeric fields the encoders receive are integer-valued numbers; they are
  modelled as \<open>int\<close>, and each operator that the source applies to them is written out
  with its JavaScript meaning (\<open>>>\<close> and \<open>&\<close> work on the 32-bit two's complement
  value of their operands, a store into a \<open>Uint8Array\<close> keeps the low eight bits).
\<close>

type_synonym byte = "8 word"
type_synonym jsstring = "16 word list"

text \<open>The one exception the encoders raise: \<open>Error("Byte string too long for CBOR encoding")\<close>.\<close>

datatype error = ByteStringTooLong

definition ToUint8 :: "int \<Rightarrow> byte" where
  "ToUint8 n = word_of_int n"

definition ToInt32 :: "int \<Rightarrow> int" where
  "ToInt32 n = sint (word_of_int n :: 32 word)"

definition js_shr :: "int \<Rightarrow> nat \<Rightarrow> int" where
  "js_shr n k = drop_bit k (ToInt32 n)"

definition js_and :: "int \<Rightarrow> int \<Rightarrow> int" where
  "js_and a b = ToInt32 a AND ToInt32 b"

text \<open>\<open>buffer.subarray(begin, end)\<close> for \<open>0 \<le> begin \<le> end \<le> buffer.length\<close>.\<close>

definition subarray :: "byte list \<Rightarrow> nat \<Rightarrow> nat \<Rightarrow> byte list" where
  "subarray buffer begin stop = take (stop - begin) (drop begin buffer)"

definition concatUint8Arrays :: "byte list list \<Rightarrow> byte list" where
  "concatUint8Arrays arrays = concat arrays"

section \<open>Byte strings (slt-hash.ts and task-hash.ts hold the same two functions)\<close>

definition PLUTUS_CHUNK_SIZE :: nat where
  "PLUTUS_CHUNK_SIZE = 64"

definition encodeCBORByteString :: "byte list \<Rightarrow> error + byte list" where
  "encodeCBORByteString buffer =
     (let len = int (length buffer) in
      if len \<le> 23 then Inr (ToUint8 (0x40 + len) # buffer)
      else if len \<le> 255 then Inr (0x58 # ToUint8 len # buffer)
      else if len \<le> 65535 then
        Inr (0x59 # ToUint8 (js_shr len 8) # ToUint8 (js_and len 0xff) # buffer)
      else Inl ByteStringTooLong)"

text \<open>
  The loop \<open>for (let i = 0; i < buffer.length; i += PLUTUS_CHUNK_SIZE)\<close> of
  \<open>encodePlutusBuiltinByteString\<close>, with the list \<open>chunks\<close> it appends to.
\<close>

function chunk_loop :: "byte list \<Rightarrow> nat \<Rightarrow> byte list list \<Rightarrow> error + byte list list" where
  "chunk_loop buffer i chunks =
     (if i < length buffer then
        (case encodeCBORByteString
                (subarray buffer i (min (i + PLUTUS_CHUNK_SIZE) (length buffer))) of
           Inl e \<Rightarrow> Inl e
         | Inr c \<Rightarrow> chunk_loop buffer (i + PLUTUS_CHUNK_SIZE) (chunks @ [c]))
      else Inr chunks)"
  by pat_completeness auto
termination
  by (relation "measure (\<lambda>(buffer, i, chunks). length buffer - i)")
     (auto simp: PLUTUS_CHUNK_SIZE_def)

declare chunk_loop.simps [simp del]

definition encodePlutusBuiltinByteString :: "byte list \<Rightarrow> error + byte list" where
  "encodePlutusBuiltinByteString buffer =
     (if length buffer \<le> PLUTUS_CHUNK_SIZE then encodeCBORByteString buffer
      else (case chunk_loop buffer 0 [[0x5f]] of
              Inl e \<Rightarrow> Inl e
            | Inr chunks \<Rightarrow> Inr (concatUint8Arrays (chunks @ [[0xff]]))))"

text \<open>
  The claim's words for the chunks: the successive 64-byte slices of a byte sequence, the
  last one possibly shorter.
\<close>

definition slices64 :: "byte list \<Rightarrow> byte list list" where
  "slices64 b = map (\<lambda>k. take 64 (drop (64 * k) b)) [0 ..< (length b + 63) div 64]"

section \<open>Integers (task-hash.ts)\<close>

text \<open>
  The only arithmetic \<open>encodePlutusInteger\<close> does on its argument is \<open>-1 - n\<close>, a
  subtraction of doubles: its result is the double nearest to the exact difference, ties
  going to the even significand.  \<open>nearest_double\<close> is that rounding on integers (the
  exponent range is left out: the difference of \<open>-1\<close> and a double never overflows).
\<close>

fun bit_length :: "nat \<Rightarrow> nat" where
  "bit_length n = (if n = 0 then 0 else Suc (bit_length (n div 2)))"

declare bit_length.simps [simp del]

definition nearest_double :: "int \<Rightarrow> int" where
  "nearest_double x =
     (let m = nat \<bar>x\<bar> in
      if m < 2 ^ 53 then x
      else
        let q = 2 ^ (bit_length m - 53);
            d = m div q;
            r = m mod q;
            d' = (if 2 * r < q \<or> (2 * r = q \<and> even d) then d else d + 1)
        in sgn x * int (d' * q))"

definition js_sub :: "int \<Rightarrow> int \<Rightarrow> int" where
  "js_sub a b = nearest_double (a - b)"

text \<open>
  \<open>view.setBigUint64(1, big, false)\<close> stores \<open>big\<close> modulo \<open>2^64\<close> in eight bytes,
  the most significant first.
\<close>

definition setBigUint64 :: "int \<Rightarrow> byte list" where
  "setBigUint64 big =
     (let w = (word_of_int big :: 64 word)
      in map (\<lambda>k. ucast (drop_bit (8 * k) w)) [7, 6, 5, 4, 3, 2, 1, 0])"

definition encodePlutusInteger :: "int \<Rightarrow> byte list" where
  "encodePlutusInteger n =
     (if n \<ge> 0 then
        if n \<le> 23 then [ToUint8 n]
        else if n \<le> 0xff then [0x18, ToUint8 n]
        else if n \<le> 0xffff then [0x19, ToUint8 (js_shr n 8), ToUint8 (js_and n 0xff)]
        else if n \<le> 0xffffffff then
          [0x1a, ToUint8 (js_and (js_shr n 24) 0xff), ToUint8 (js_and (js_shr n 16) 0xff),
           ToUint8 (js_and (js_shr n 8) 0xff), ToUint8 (js_and n 0xff)]
        else 0x1b # setBigUint64 n
      else
        let absVal = js_sub (- 1) n in
        if absVal \<le> 23 then [ToUint8 (0x20 + absVal)]
        else if absVal \<le> 0xff then [0x38, ToUint8 absVal]
        else if absVal \<le> 0xffff then
          [0x39, ToUint8 (js_shr absVal 8), ToUint8 (js_and absVal 0xff)]
        else if absVal \<le> 0xffffffff then
          [0x3a, ToUint8 (js_and (js_shr absVal 24) 0xff),
           ToUint8 (js_and (js_shr absVal 16) 0xff),
           ToUint8 (js_and (js_shr absVal 8) 0xff), ToUint8 (js_and absVal 0xff)]
        else 0x3b # setBigUint64 absVal)"

text \<open>The value a sequence of bytes holds, read big-endian.\<close>

definition be_nat :: "byte list \<Rightarrow> nat" where
  "be_nat bs = foldl (\<lambda>a b. a * 256 + unat b) 0 bs"

text \<open>
  The width ladder in the claim's words, for a major-type base \<open>m\<close> (\<open>0x00\<close> or
  \<open>0x20\<close>) and a value \<open>v\<close>: the header alone up to 23, then the headers
  \<open>m + 0x18\<close>, \<open>m + 0x19\<close>, \<open>m + 0x1a\<close>, \<open>m + 0x1b\<close> followed by 1, 2, 4 and 8
  big-endian bytes that hold \<open>v\<close>.
\<close>

definition width_ladder :: "nat \<Rightarrow> nat \<Rightarrow> byte list \<Rightarrow> bool" where
  "width_ladder m v bytes \<longleftrightarrow>
     (if v \<le> 23 then bytes = [of_nat (m + v)]
      else \<exists>bs. bytes = of_nat (m + (if v \<le> 0xff then 0x18 else if v \<le> 0xffff then 0x19
                                         else if v \<le> 0xffffffff then 0x1a else 0x1b)) # bs \<and>
             length bs = (if v \<le> 0xff then 1 else if v \<le> 0xffff then 2
                          else if v \<le> 0xffffffff then 4 else 8) \<and>
             be_nat bs = v)"

section \<open>Text\<close>

text \<open>
  \<open>new TextEncoder().encode(s)\<close> is the platform's UTF-8 encoder, not code of the
  repository.  It reads the UTF-16 code units of \<open>s\<close> as code points (a high surrogate
  followed by a low surrogate is one code point, any other surrogate is replaced by
  U+FFFD) and writes each code point in one to four bytes.
\<close>

definition is_high_surrogate :: "16 word \<Rightarrow> bool" where
  "is_high_surrogate c \<longleftrightarrow> 0xD800 \<le> c \<and> c \<le> 0xDBFF"

definition is_low_surrogate :: "16 word \<Rightarrow> bool" where
  "is_low_surrogate c \<longleftrightarrow> 0xDC00 \<le> c \<and> c \<le> 0xDFFF"

fun scalar_values :: "jsstring \<Rightarrow> nat list" where
  "scalar_values [] = []"
| "scalar_values [c] =
     [if is_high_surrogate c \<or> is_low_surrogate c then 0xFFFD else unat c]"
| "scalar_values (c # d # cs) =
     (if is_high_surrogate c \<and> is_low_surrogate d
      then (0x10000 + (unat c - 0xD800) * 0x400 + (unat d - 0xDC00)) # scalar_values cs
      else (if is_high_surrogate c \<or> is_low_surrogate c then 0xFFFD else unat c)
             # scalar_values (d # cs))"

definition utf8_bytes :: "nat \<Rightarrow> byte list" where
  "utf8_bytes cp =
     (if cp < 0x80 then [of_nat cp]
      else if cp < 0x800 then [of_nat (0xC0 + cp div 64), of_nat (0x80 + cp mod 64)]
      else if cp < 0x10000 then
        [of_nat (0xE0 + cp div 4096), of_nat (0x80 + cp div 64 mod 64),
         of_nat (0x80 + cp mod 64)]
      else
        [of_nat (0xF0 + cp div 262144), of_nat (0x80 + cp div 4096 mod 64),
         of_nat (0x80 + cp div 64 mod 64), of_nat (0x80 + cp mod 64)])"

definition TextEncoder_encode :: "jsstring \<Rightarrow> byte list" where
  "TextEncoder_encode s = concat (map utf8_bytes (scalar_values s))"

text \<open>An ASCII literal as a JavaScript string.\<close>

definition js :: "string \<Rightarrow> jsstring" where
  "js s = map (\<lambda>c. of_nat (of_char c)) s"

section \<open>The SLT array (slt-hash.ts)\<close>

text \<open>The loop \<open>for (const item of items)\<close> of \<open>encodeAsPlutusArray\<close>.\<close>

fun encodeAsPlutusArray_loop :: "byte list list \<Rightarrow> byte list list \<Rightarrow> error + byte list list" where
  "encodeAsPlutusArray_loop [] chunks = Inr chunks"
| "encodeAsPlutusArray_loop (item # items) chunks =
     (case encodePlutusBuiltinByteString item of
        Inl e \<Rightarrow> Inl e
      | Inr c \<Rightarrow> encodeAsPlutusArray_loop items (chunks @ [c]))"

definition encodeAsPlutusArray :: "byte list list \<Rightarrow> error + byte list" where
  "encodeAsPlutusArray items =
     (case encodeAsPlutusArray_loop items [[0x9f]] of
        Inl e \<Rightarrow> Inl e
      | Inr chunks \<Rightarrow> Inr (concatUint8Arrays (chunks @ [[0xff]])))"

section \<open>Tasks (task-hash.ts)\<close>

type_synonym NativeAsset = "jsstring \<times> int"

record TaskData =
  project_content :: jsstring
  expiration_time :: int
  lovelace_amount :: int
  native_assets :: "NativeAsset list"

text \<open>The loop \<open>for (const [assetClass, quantity] of assets)\<close> of \<open>encodeNativeAssets\<close>.\<close>

fun encodeNativeAssets_loop :: "NativeAsset list \<Rightarrow> byte list list \<Rightarrow> error + byte list list" where
  "encodeNativeAssets_loop [] chunks = Inr chunks"
| "encodeNativeAssets_loop ((assetClass, quantity) # assets) chunks =
     (case encodePlutusBuiltinByteString (TextEncoder_encode assetClass) of
        Inl e \<Rightarrow> Inl e
      | Inr c \<Rightarrow>
          encodeNativeAssets_loop assets
            (chunks @ [[0x82]] @ [c] @ [encodePlutusInteger quantity]))"

definition encodeNativeAssets :: "NativeAsset list \<Rightarrow> error + byte list" where
  "encodeNativeAssets assets =
     (if length assets = 0 then Inr [0x80]
      else (case encodeNativeAssets_loop assets [[0x9f]] of
              Inl e \<Rightarrow> Inl e
            | Inr chunks \<Rightarrow> Inr (concatUint8Arrays (chunks @ [[0xff]]))))"

definition encodeTaskAsPlutusData :: "TaskData \<Rightarrow> error + byte list" where
  "encodeTaskAsPlutusData task =
     (case encodePlutusBuiltinByteString (TextEncoder_encode (project_content task)) of
        Inl e \<Rightarrow> Inl e
      | Inr content \<Rightarrow>
          (case encodeNativeAssets (native_assets task) of
             Inl e \<Rightarrow> Inl e
           | Inr assets \<Rightarrow>
               Inr (concatUint8Arrays
                      [[0xd8, 0x79], [0x9f], content,
                       encodePlutusInteger (expiration_time task),
                       encodePlutusInteger (lovelace_amount task),
                       assets, [0xff]])))"

text \<open>\<open>uint8ArrayToHex\<close>: two lowercase hexadecimal digits per byte.\<close>

definition hex_digit :: "nat \<Rightarrow> 16 word" where
  "hex_digit d = js ''0123456789abcdef'' ! d"

definition uint8ArrayToHex :: "byte list \<Rightarrow> jsstring" where
  "uint8ArrayToHex arr =
     concat (map (\<lambda>b. [hex_digit (unat b div 16), hex_digit (unat b mod 16)]) arr)"

definition debugTaskCBOR :: "TaskData \<Rightarrow> error + jsstring" where
  "debugTaskCBOR task =
     (case encodeTaskAsPlutusData task of
        Inl e \<Rightarrow> Inl e
      | Inr cborData \<Rightarrow> Inr (uint8ArrayToHex cborData))"

section \<open>Evidence documents (commitment-hash.ts)\<close>

text \<open>
  A JSON-like value, with \<open>undefined\<close> beside \<open>null\<close>.  Numbers are returned as they
  come, so their type is left open.  An object is the list of its own properties in the
  order in which \<open>Object.keys\<close> and \<open>JSON.stringify\<close> enumerate them; the keys of an
  object are distinct.  The values of other types, which the last line of
  \<open>normalizeForHashing\<close> returns unchanged, are not JSON-like and not part of the type.
\<close>

datatype 'n jsvalue =
    Null
  | Undefined
  | Bool bool
  | Num 'n
  | Str jsstring
  | Arr "'n jsvalue list"
  | Obj "(jsstring \<times> 'n jsvalue) list"

text \<open>
  \<open>String.prototype.trim\<close> removes white space and line terminators from both ends.
\<close>

definition is_js_whitespace :: "16 word \<Rightarrow> bool" where
  "is_js_whitespace c \<longleftrightarrow>
     c \<in> set [0x0009, 0x000A, 0x000B, 0x000C, 0x000D, 0x0020, 0x00A0, 0x1680,
               0x2000, 0x2001, 0x2002, 0x2003, 0x2004, 0x2005, 0x2006, 0x2007,
               0x2008, 0x2009, 0x200A, 0x2028, 0x2029, 0x202F, 0x205F, 0x3000, 0xFEFF]"

definition trim :: "jsstring \<Rightarrow> jsstring" where
  "trim s = rev (dropWhile is_js_whitespace (rev (dropWhile is_js_whitespace s)))"

text \<open>
  An array index is the canonical decimal string of an integer from 0 to \<open>2^32 - 2\<close>.
  An object enumerates its array-index keys first, in ascending numeric order, and its
  other string keys after them, in the order of their creation.
\<close>

fun parse_decimal :: "jsstring \<Rightarrow> nat \<Rightarrow> nat option" where
  "parse_decimal [] acc = Some acc"
| "parse_decimal (c # cs) acc =
     (if 0x30 \<le> c \<and> c \<le> 0x39 then parse_decimal cs (10 * acc + (unat c - 0x30))
      else None)"

definition array_index :: "jsstring \<Rightarrow> nat option" where
  "array_index s =
     (if s = [] \<or> (hd s = 0x30 \<and> length s > 1) then None
      else (case parse_decimal s 0 of
              None \<Rightarrow> None
            | Some n \<Rightarrow> if n \<le> 4294967294 then Some n else None))"

fun insert_index :: "nat \<Rightarrow> jsstring \<times> 'v \<Rightarrow> (jsstring \<times> 'v) list \<Rightarrow> (jsstring \<times> 'v) list" where
  "insert_index i kv [] = [kv]"
| "insert_index i kv (p # props) =
     (case array_index (fst p) of
        None \<Rightarrow> kv # p # props
      | Some j \<Rightarrow> if j < i then p # insert_index i kv props else kv # p # props)"

text \<open>
  The assignment \<open>sorted[key] = v\<close> on an object that was created by \<open>{}\<close>.  The key
  \<open>__proto__\<close> reaches the setter inherited from \<open>Object.prototype\<close> and creates no
  property.  An existing property keeps its place and takes the new value; a new one is
  created.
\<close>

definition proto_key :: jsstring where
  "proto_key = js ''__proto__''"

definition set_property :: "(jsstring \<times> 'v) list \<Rightarrow> jsstring \<Rightarrow> 'v \<Rightarrow> (jsstring \<times> 'v) list" where
  "set_property props key v =
     (if key = proto_key then props
      else if key \<in> fst ` set props then map (\<lambda>(k, w). if k = key then (k, v) else (k, w)) props
      else (case array_index key of
              None \<Rightarrow> props @ [(key, v)]
            | Some i \<Rightarrow> insert_index i (key, v) props))"

definition Object_keys :: "(jsstring \<times> 'v) list \<Rightarrow> jsstring list" where
  "Object_keys props = map fst props"

text \<open>
  \<open>normalizeForHashing\<close>.  The loop over the sorted keys reads \<open>value[key]\<close>, skips
  \<open>undefined\<close> and assigns the normalised value to \<open>sorted[key]\<close>.  The default
  \<open>sort()\<close> of an array of strings orders them by their UTF-16 code units.
\<close>

function normalizeForHashing :: "'n jsvalue \<Rightarrow> 'n jsvalue" where
  "normalizeForHashing Null = Null"
| "normalizeForHashing Undefined = Null"
| "normalizeForHashing (Str s) = Str (trim s)"
| "normalizeForHashing (Num n) = Num n"
| "normalizeForHashing (Bool b) = Bool b"
| "normalizeForHashing (Arr xs) = Arr (map normalizeForHashing xs)"
| "normalizeForHashing (Obj props) =
     Obj (foldl (\<lambda>sorted key.
                  (case map_of props key of
                     None \<Rightarrow> sorted
                   | Some val \<Rightarrow>
                       if val \<noteq> Undefined then set_property sorted key (normalizeForHashing val)
                       else sorted))
                [] (sort (Object_keys props)))"
  by pat_completeness auto
termination
proof (relation "measure size")
  show "wf (measure size)" by simp
next
  fix xs :: "'n jsvalue list" and x
  assume "x \<in> set xs"
  then show "(x, Arr xs) \<in> measure size"
    by (induction xs) auto
next
  fix props :: "(jsstring \<times> 'n jsvalue) list" and sorted key val
  assume "map_of props key = Some val"
  then have "(key, val) \<in> set props" by (rule map_of_SomeD)
  then show "(val, Obj props) \<in> measure size"
    by (induction props) auto
qed

text \<open>Assigning a list of properties in turn, as the loop does.\<close>

definition assign_all :: "(jsstring \<times> 'v) list \<Rightarrow> (jsstring \<times> 'v) list \<Rightarrow> (jsstring \<times> 'v) list" where
  "assign_all acc kvs = foldl (\<lambda>sorted (key, v). set_property sorted key v) acc kvs"

text \<open>The representation invariant of objects: no key occurs twice, at any depth.\<close>

fun well_formed :: "'n jsvalue \<Rightarrow> bool" where
  "well_formed (Arr xs) = (\<forall>x \<in> set xs. well_formed x)"
| "well_formed (Obj props) =
     (distinct (map fst props) \<and> (\<forall>v \<in> snd ` set props. well_formed v))"
| "well_formed v = True"

text \<open>
  Two documents that differ only in the order of the keys of their mappings and in the
  white space at the ends of their strings.
\<close>

inductive doc_equiv :: "'n jsvalue \<Rightarrow> 'n jsvalue \<Rightarrow> bool" where
  same: "doc_equiv v v"
| strings: "trim s = trim t \<Longrightarrow> doc_equiv (Str s) (Str t)"
| arrays: "list_all2 doc_equiv xs ys \<Longrightarrow> doc_equiv (Arr xs) (Arr ys)"
| objects:
    "distinct (map fst p) \<Longrightarrow> distinct (map fst q) \<Longrightarrow>
     set (map fst p) = set (map fst q) \<Longrightarrow>
     (\<forall>k v w. map_of p k = Some v \<and> map_of q k = Some w \<longrightarrow> doc_equiv v w) \<Longrightarrow>
     doc_equiv (Obj p) (Obj q)"

text \<open>
  The properties the loop assigns when it runs over the keys \<open>ks\<close>: a key whose value
  is not \<open>undefined\<close>, with that value normalised.
\<close>

definition entries :: "(jsstring \<times> 'n jsvalue) list \<Rightarrow> jsstring list \<Rightarrow> (jsstring \<times> 'n jsvalue) list" where
  "entries props ks =
     map (\<lambda>k. (k, normalizeForHashing (the (map_of props k))))
       (filter (\<lambda>k. case map_of props k of None \<Rightarrow> False | Some val \<Rightarrow> val \<noteq> Undefined) ks)"

section \<open>The hash primitive\<close>

text \<open>
  Modelled from the spec: \<open>blake.blake2bHex(input, undefined, 32)\<close> of the library
  \<open>blakejs\<close>, which the three pipelines import and which is not under the repository's
  sources.  The spec names it the Blake2b-256 primitive with a 32-byte digest, written
  as lowercase hexadecimal.  The definitions below are BLAKE2b as RFC 7693 gives it, without a
  key: 64-bit words are integers with the wrap-around written out, a block is 128
  bytes, the last block is padded with zeros, and the digest is the first \<open>outlen\<close>
  bytes of the state in little-endian order.
\<close>

definition add64 :: "int \<Rightarrow> int \<Rightarrow> int" where
  "add64 a b = (a + b) mod 2 ^ 64"

definition rotr64 :: "nat \<Rightarrow> int \<Rightarrow> int" where
  "rotr64 r x = x div 2 ^ r + (x mod 2 ^ r) * 2 ^ (64 - r)"

definition blake2b_IV :: "int list" where
  "blake2b_IV =
     [0x6a09e667f3bcc908, 0xbb67ae8584caa73b, 0x3c6ef372fe94f82b, 0xa54ff53a5f1d36f1,
      0x510e527fade682d1, 0x9b05688c2b3e6c1f, 0x1f83d9abfb41bd6b, 0x5be0cd19137e2179]"

definition blake2b_SIGMA :: "nat list list" where
  "blake2b_SIGMA =
     [[0, 1, 2, 3, 4, 5, 6, 7, 8, 9, 10, 11, 12, 13, 14, 15],
      [14, 10, 4, 8, 9, 15, 13, 6, 1, 12, 0, 2, 11, 7, 5, 3],
      [11, 8, 12, 0, 5, 2, 15, 13, 10, 14, 3, 6, 7, 1, 9, 4],
      [7, 9, 3, 1, 13, 12, 11, 14, 2, 6, 5, 10, 4, 0, 15, 8],
      [9, 0, 5, 7, 2, 4, 10, 15, 14, 1, 11, 12, 6, 8, 3, 13],
      [2, 12, 6, 10, 0, 11, 8, 3, 4, 13, 7, 5, 15, 14, 1, 9],
      [12, 5, 1, 15, 14, 13, 4, 10, 0, 7, 6, 3, 9, 2, 8, 11],
      [13, 11, 7, 14, 12, 1, 3, 9, 5, 0, 15, 4, 8, 6, 2, 10],
      [6, 15, 14, 9, 11, 3, 0, 8, 12, 2, 13, 7, 1, 4, 10, 5],
      [10, 2, 8, 4, 7, 6, 1, 5, 15, 11, 9, 14, 3, 12, 13, 0],
      [0, 1, 2, 3, 4, 5, 6, 7, 8, 9, 10, 11, 12, 13, 14, 15],
      [14, 10, 4, 8, 9, 15, 13, 6, 1, 12, 0, 2, 11, 7, 5, 3]]"

text \<open>
  The mixing function \<open>G\<close> on the working vector \<open>v\<close>: two kinds of steps,
  \<open>v[a] := v[a] + v[b] + x\<close> and \<open>v[d] := (v[d] xor v[a]) >>> r\<close>.
\<close>

definition G_add :: "nat \<Rightarrow> nat \<Rightarrow> int \<Rightarrow> int list \<Rightarrow> int list" where
  "G_add a b x v = v[a := add64 (add64 (v ! a) (v ! b)) x]"

definition G_rot :: "nat \<Rightarrow> nat \<Rightarrow> nat \<Rightarrow> int list \<Rightarrow> int list" where
  "G_rot d a r v = v[d := rotr64 r (v ! d XOR v ! a)]"

definition B2B_G :: "nat \<Rightarrow> nat \<Rightarrow> nat \<Rightarrow> nat \<Rightarrow> int \<Rightarrow> int \<Rightarrow> int list \<Rightarrow> int list" where
  "B2B_G a b c d x y v =
     G_rot b c 63 (G_add c d 0 (G_rot d a 16 (G_add a b y
       (G_rot b c 24 (G_add c d 0 (G_rot d a 32 (G_add a b x v)))))))"

definition mix_round :: "int list \<Rightarrow> nat list \<Rightarrow> int list \<Rightarrow> int list" where
  "mix_round m s v =
     B2B_G 3 4 9 14 (m ! (s ! 14)) (m ! (s ! 15))
      (B2B_G 2 7 8 13 (m ! (s ! 12)) (m ! (s ! 13))
      (B2B_G 1 6 11 12 (m ! (s ! 10)) (m ! (s ! 11))
      (B2B_G 0 5 10 15 (m ! (s ! 8)) (m ! (s ! 9))
      (B2B_G 3 7 11 15 (m ! (s ! 6)) (m ! (s ! 7))
      (B2B_G 2 6 10 14 (m ! (s ! 4)) (m ! (s ! 5))
      (B2B_G 1 5 9 13 (m ! (s ! 2)) (m ! (s ! 3))
      (B2B_G 0 4 8 12 (m ! (s ! 0)) (m ! (s ! 1)) v)))))))"

fun blake2b_rounds :: "int list \<Rightarrow> nat list list \<Rightarrow> int list \<Rightarrow> int list" where
  "blake2b_rounds m [] v = v"
| "blake2b_rounds m (s # ss) v = blake2b_rounds m ss (mix_round m s v)"

definition le64 :: "byte list \<Rightarrow> int" where
  "le64 bs = foldr (\<lambda>b acc. uint b + 256 * acc) bs 0"

fun block_words :: "byte list \<Rightarrow> int list" where
  "block_words (b0 # b1 # b2 # b3 # b4 # b5 # b6 # b7 # bs) =
     le64 [b0, b1, b2, b3, b4, b5, b6, b7] # block_words bs"
| "block_words bs = []"

definition xor_at :: "nat \<Rightarrow> int \<Rightarrow> int list \<Rightarrow> int list" where
  "xor_at i x v = v[i := v ! i XOR x]"

definition blake2b_init_state :: "int list \<Rightarrow> int \<Rightarrow> bool \<Rightarrow> int list" where
  "blake2b_init_state h t final =
     (if final
      then xor_at 14 (2 ^ 64 - 1)
             (xor_at 13 (t div 2 ^ 64) (xor_at 12 (t mod 2 ^ 64) (h @ blake2b_IV)))
      else xor_at 13 (t div 2 ^ 64) (xor_at 12 (t mod 2 ^ 64) (h @ blake2b_IV)))"

definition blake2b_finish :: "int list \<Rightarrow> int list \<Rightarrow> int list" where
  "blake2b_finish h v = map (\<lambda>i. h ! i XOR v ! i XOR v ! (i + 8)) [0, 1, 2, 3, 4, 5, 6, 7]"

definition blake2b_compress :: "int list \<Rightarrow> byte list \<Rightarrow> int \<Rightarrow> bool \<Rightarrow> int list" where
  "blake2b_compress h block t final =
     blake2b_finish h
       (blake2b_rounds (block_words block) blake2b_SIGMA (blake2b_init_state h t final))"

function blake2b_update :: "int list \<Rightarrow> byte list \<Rightarrow> int \<Rightarrow> int list" where
  "blake2b_update h input t =
     (if length input \<le> 128
      then blake2b_compress h (input @ replicate (128 - length input) 0)
             (t + int (length input)) True
      else blake2b_update (blake2b_compress h (take 128 input) (t + 128) False)
             (drop 128 input) (t + 128))"
  by pat_completeness auto
termination
  by (relation "measure (\<lambda>(h, input, t). length input)") auto

declare blake2b_update.simps [simp del]

definition le_bytes8 :: "int \<Rightarrow> byte list" where
  "le_bytes8 x = map (\<lambda>k. word_of_int (x div 2 ^ (8 * k) mod 256)) [0, 1, 2, 3, 4, 5, 6, 7]"

definition blake2b :: "byte list \<Rightarrow> nat \<Rightarrow> byte list" where
  "blake2b input outlen =
     take outlen (concat (map le_bytes8
       (blake2b_update (xor_at 0 (0x01010000 XOR int outlen) blake2b_IV) input 0)))"

text \<open>The library's \<open>toHex\<close>: \<open>(n < 16 ? '0' : '') + n.toString(16)\<close> for each byte.\<close>

definition toString16 :: "nat \<Rightarrow> jsstring" where
  "toString16 n = (if n < 16 then [hex_digit n] else [hex_digit (n div 16), hex_digit (n mod 16)])"

definition toHex :: "byte list \<Rightarrow> jsstring" where
  "toHex bytes = concat (map (\<lambda>b. (if unat b < 16 then js ''0'' else []) @ toString16 (unat b)) bytes)"

definition blake2bHex :: "byte list \<Rightarrow> nat \<Rightarrow> jsstring" where
  "blake2bHex input outlen = toHex (blake2b input outlen)"

section \<open>The hash pipelines\<close>

text \<open>
  \<open>String.prototype.toLowerCase\<close>, on the letters \<open>A\<close> to \<open>Z\<close>.  The lower-case
  mapping of every other character is left out: it never yields a digit or a letter
  \<open>a\<close> to \<open>f\<close>, and the pipelines use \<open>toLowerCase\<close> only to compare a string with a
  hexadecimal digest.
\<close>

definition to_lower_unit :: "16 word \<Rightarrow> 16 word" where
  "to_lower_unit c = (if 0x41 \<le> c \<and> c \<le> 0x5A then c + 0x20 else c)"

definition toLowerCase :: "jsstring \<Rightarrow> jsstring" where
  "toLowerCase s = map to_lower_unit s"

definition computeSltHash :: "jsstring list \<Rightarrow> error + jsstring" where
  "computeSltHash slts =
     (case encodeAsPlutusArray (map TextEncoder_encode slts) of
        Inl e \<Rightarrow> Inl e
      | Inr cborData \<Rightarrow> Inr (blake2bHex cborData 32))"

definition verifySltHash :: "jsstring list \<Rightarrow> jsstring \<Rightarrow> error + bool" where
  "verifySltHash slts expectedHash =
     (case computeSltHash slts of
        Inl e \<Rightarrow> Inl e
      | Inr computedHash \<Rightarrow> Inr (toLowerCase computedHash = toLowerCase expectedHash))"

definition computeTaskHash :: "TaskData \<Rightarrow> error + jsstring" where
  "computeTaskHash task =
     (case encodeTaskAsPlutusData task of
        Inl e \<Rightarrow> Inl e
      | Inr cborData \<Rightarrow> Inr (blake2bHex cborData 32))"

definition verifyTaskHash :: "TaskData \<Rightarrow> jsstring \<Rightarrow> error + bool" where
  "verifyTaskHash task expectedHash =
     (case computeTaskHash task of
        Inl e \<Rightarrow> Inl e
      | Inr computedHash \<Rightarrow> Inr (toLowerCase computedHash = toLowerCase expectedHash))"

text \<open>
  \<open>JSON.stringify\<close> is a parameter of the commitment pipeline: on a normalised JSON-like
  value it returns a string, and which string it returns plays no part in the claims.
\<close>

definition computeCommitmentHash :: "('n jsvalue \<Rightarrow> jsstring) \<Rightarrow> 'n jsvalue \<Rightarrow> jsstring" where
  "computeCommitmentHash JSON_stringify evidence =
     blake2bHex (TextEncoder_encode (JSON_stringify (normalizeForHashing evidence))) 32"

definition verifyCommitmentHash :: "('n jsvalue \<Rightarrow> jsstring) \<Rightarrow> 'n jsvalue \<Rightarrow> jsstring \<Rightarrow> bool" where
  "verifyCommitmentHash JSON_stringify evidence expectedHash \<longleftrightarrow>
     toLowerCase (computeCommitmentHash JSON_stringify evidence) = toLowerCase expectedHash"

text \<open>The digest format of the claims: exactly 64 lowercase hexadecimal characters.\<close>

definition lower_hex :: "16 word \<Rightarrow> bool" where
  "lower_hex c \<longleftrightarrow> c \<in> set (js ''0123456789abcdef'')"

definition is_digest_hex :: "jsstring \<Rightarrow> bool" where
  "is_digest_hex h \<longleftrightarrow> length h = 64 \<and> list_all lower_hex h"

text \<open>A string obtained from \<open>h\<close> by changing the single character at index \<open>i\<close> to \<open>c\<close>.\<close>

definition change_char :: "jsstring \<Rightarrow> nat \<Rightarrow> 16 word \<Rightarrow> jsstring" where
  "change_char h i c = h[i := c]"

text \<open>The learning targets of the test in \<open>slt-hash.test.ts\<close>.\<close>

definition known_slts :: "jsstring list" where
  "known_slts =
     [js ''I can set up a Typescript development environment.'',
      js ''I can use Github CLI to create an issue.'',
      js ''I can run the Andamio T3 App Template locally.'']"

section \<open>Properties of the byte-string encoders\<close>

lemma ToUint8_unat: "0 \<le> n \<Longrightarrow> n < 256 \<Longrightarrow> unat (ToUint8 n) = nat n"
  unfolding ToUint8_def
  by (simp add: unat_eq_nat_uint uint_word_of_int take_bit_int_eq_self)

lemma ToInt32_id: "- (2 ^ 31) \<le> n \<Longrightarrow> n < 2 ^ 31 \<Longrightarrow> ToInt32 n = n"
  unfolding ToInt32_def
  by (simp add: sint_sbintrunc' signed_take_bit_int_eq_self)

lemma js_shr_small: "0 \<le> n \<Longrightarrow> n < 2 ^ 31 \<Longrightarrow> js_shr n k = n div 2 ^ k"
  by (simp add: js_shr_def ToInt32_id drop_bit_eq_div)

lemma js_and_ff: "0 \<le> n \<Longrightarrow> n < 2 ^ 31 \<Longrightarrow> js_and n 0xff = n mod 256"
proof -
  assume a: "0 \<le> n" "n < 2 ^ 31"
  have "(255::int) = mask 8" by (simp add: mask_eq_exp_minus_1)
  then have "n AND 255 = take_bit 8 n" by (simp only: take_bit_eq_mask)
  then show ?thesis using a by (simp add: js_and_def ToInt32_id take_bit_eq_mod)
qed

lemma hi_lo: "256 \<le> n \<Longrightarrow> n \<le> 65535 \<Longrightarrow>
   unat (ToUint8 (js_shr n 8)) * 256 + unat (ToUint8 (js_and n 0xff)) = nat n"
proof -
  assume a: "256 \<le> n" "n \<le> 65535"
  have d: "0 \<le> n div 256" "n div 256 < 256" using a by simp_all
  have m: "0 \<le> n mod 256" "n mod 256 < 256" by simp_all
  have "int (nat (n div 256) * 256 + nat (n mod 256)) = n"
    using d m by simp
  then have "nat (n div 256) * 256 + nat (n mod 256) = nat n" by linarith
  then show ?thesis using a d m by (simp add: js_shr_small js_and_ff ToUint8_unat)
qed

text \<open>
  C5.  The definite byte-string encoder writes the header \<open>0x40 + len\<close> and the
  payload for up to 23 bytes; \<open>0x58\<close>, one length byte and the payload for 24 to 255
  bytes; \<open>0x59\<close>, two big-endian length bytes and the payload for 256 to 65535 bytes;
  and it fails exactly when the payload is longer than 65535 bytes.
\<close>

theorem encodeCBORByteString_cases:
  "(length b \<le> 23 \<longrightarrow>
      (\<exists>h. encodeCBORByteString b = Inr (h # b) \<and> unat h = 0x40 + length b)) \<and>
   (24 \<le> length b \<and> length b \<le> 255 \<longrightarrow>
      (\<exists>l. encodeCBORByteString b = Inr (0x58 # l # b) \<and> unat l = length b)) \<and>
   (256 \<le> length b \<and> length b \<le> 65535 \<longrightarrow>
      (\<exists>hi lo. encodeCBORByteString b = Inr (0x59 # hi # lo # b) \<and>
         unat hi * 256 + unat lo = length b)) \<and>
   ((\<exists>e. encodeCBORByteString b = Inl e) \<longleftrightarrow> 65535 < length b) \<and>
   (65535 < length b \<longrightarrow> encodeCBORByteString b = Inl ByteStringTooLong)"
proof (intro conjI impI)
  assume "length b \<le> 23"
  then show "\<exists>h. encodeCBORByteString b = Inr (h # b) \<and> unat h = 0x40 + length b"
    by (simp add: encodeCBORByteString_def ToUint8_unat)
next
  assume "24 \<le> length b \<and> length b \<le> 255"
  then show "\<exists>l. encodeCBORByteString b = Inr (0x58 # l # b) \<and> unat l = length b"
    by (simp add: encodeCBORByteString_def ToUint8_unat)
next
  assume "256 \<le> length b \<and> length b \<le> 65535"
  then show "\<exists>hi lo. encodeCBORByteString b = Inr (0x59 # hi # lo # b) \<and>
         unat hi * 256 + unat lo = length b"
    using hi_lo [of "int (length b)"] by (simp add: encodeCBORByteString_def Let_def)
next
  show "(\<exists>e. encodeCBORByteString b = Inl e) \<longleftrightarrow> 65535 < length b"
    by (auto simp add: encodeCBORByteString_def Let_def split: if_splits)
next
  assume "65535 < length b"
  then show "encodeCBORByteString b = Inl ByteStringTooLong"
    by (simp add: encodeCBORByteString_def)
qed

theorem encodeCBORByteString_cases_witness:
  "(\<exists>h. encodeCBORByteString [] = Inr (h # []) \<and> unat h = 0x40 + length ([] :: byte list)) \<and>
   (\<exists>l. encodeCBORByteString (replicate 24 7) = Inr (0x58 # l # replicate 24 7) \<and> unat l = 24) \<and>
   (\<exists>hi lo. encodeCBORByteString (replicate 256 7) = Inr (0x59 # hi # lo # replicate 256 7) \<and>
         unat hi * 256 + unat lo = 256) \<and>
   encodeCBORByteString (replicate 65536 7) = Inl ByteStringTooLong"
  using encodeCBORByteString_cases [of "[]"]
    encodeCBORByteString_cases [of "replicate 24 7"]
    encodeCBORByteString_cases [of "replicate 256 7"]
    encodeCBORByteString_cases [of "replicate 65536 7"]
  by simp

lemma slices64_Nil: "slices64 [] = []"
  by (simp add: slices64_def)

lemma slices64_rec: "xs \<noteq> [] \<Longrightarrow> slices64 xs = take 64 xs # slices64 (drop 64 xs)"
proof -
  assume ne: "xs \<noteq> []"
  define n where "n = (length xs - 1) div 64"
  have len: "0 < length xs" using ne by simp
  then have "length xs + 63 = (length xs - 1) + 1 * 64" by simp
  then have n: "(length xs + 63) div 64 = Suc n"
    unfolding n_def by (simp only: div_mult_self1 [of 64 "length xs - 1" 1])
  have n': "(length xs - 64 + 63) div 64 = n"
  proof (cases "64 \<le> length xs")
    case True
    then have e: "length xs - 64 + 63 = length xs - 1" by simp
    show ?thesis unfolding n_def e by (rule refl)
  next
    case False
    then show ?thesis using len unfolding n_def by simp
  qed
  have "slices64 xs = map (\<lambda>k. take 64 (drop (64 * k) xs)) (0 # map Suc [0 ..< n])"
    unfolding slices64_def n by (simp only: upt_conv_Cons [of 0 "Suc n"] map_Suc_upt)
  also have "\<dots> = take 64 xs # map (\<lambda>k. take 64 (drop (64 * k) (drop 64 xs))) [0 ..< n]"
    by (simp add: comp_def add.commute)
  also have "\<dots> = take 64 xs # slices64 (drop 64 xs)"
    by (simp add: slices64_def n')
  finally show ?thesis .
qed

lemma encodeCBORByteString_short:
  "length s \<le> 65535 \<Longrightarrow> \<exists>e. encodeCBORByteString s = Inr e"
  by (simp add: encodeCBORByteString_def Let_def)

lemma chunk_loop_slices:
  "i \<le> length b \<Longrightarrow>
   \<exists>encs. chunk_loop b i chunks = Inr (chunks @ encs) \<and>
     list_all2 (\<lambda>s e. encodeCBORByteString s = Inr e) (slices64 (drop i b)) encs"
proof (induction b i chunks rule: chunk_loop.induct)
  case (1 buffer i chunks)
  show ?case
  proof (cases "i < length buffer")
    case False
    then show ?thesis using 1(2) by (subst chunk_loop.simps) (simp add: slices64_Nil)
  next
    case True
    let ?s = "subarray buffer i (min (i + PLUTUS_CHUNK_SIZE) (length buffer))"
    have s: "?s = take 64 (drop i buffer)"
      using True by (auto simp: subarray_def PLUTUS_CHUNK_SIZE_def min_def)
    have "length ?s \<le> 65535" unfolding s by simp
    then obtain c where c: "encodeCBORByteString ?s = Inr c"
      using encodeCBORByteString_short by blast
    show ?thesis
    proof (cases "i + PLUTUS_CHUNK_SIZE \<le> length buffer")
      case le: True
      from 1(1) [OF True c le] obtain encs where
        e: "chunk_loop buffer (i + PLUTUS_CHUNK_SIZE) (chunks @ [c]) = Inr ((chunks @ [c]) @ encs)"
           "list_all2 (\<lambda>s e. encodeCBORByteString s = Inr e)
              (slices64 (drop (i + PLUTUS_CHUNK_SIZE) buffer)) encs"
        by blast
      have ne: "drop i buffer \<noteq> []" using True by simp
      have "slices64 (drop i buffer) = take 64 (drop i buffer) # slices64 (drop (i + 64) buffer)"
        using slices64_rec [OF ne] by (simp add: add.commute)
      then have "list_all2 (\<lambda>s e. encodeCBORByteString s = Inr e)
              (slices64 (drop i buffer)) (c # encs)"
        using e(2) c s by (simp add: PLUTUS_CHUNK_SIZE_def)
      moreover have "chunk_loop buffer i chunks = Inr (chunks @ (c # encs))"
        using True c e(1) by (simp add: chunk_loop.simps [of buffer i])
      ultimately show ?thesis by blast
    next
      case gt: False
      have nxt: "chunk_loop buffer (i + PLUTUS_CHUNK_SIZE) (chunks @ [c]) = Inr (chunks @ [c])"
        using gt by (simp add: chunk_loop.simps [of buffer "i + PLUTUS_CHUNK_SIZE"])
      have ne: "drop i buffer \<noteq> []" using True by simp
      have "drop 64 (drop i buffer) = []" using gt by (simp add: PLUTUS_CHUNK_SIZE_def)
      then have "slices64 (drop i buffer) = [take 64 (drop i buffer)]"
        using slices64_rec [OF ne] by (simp add: slices64_Nil)
      then have "list_all2 (\<lambda>s e. encodeCBORByteString s = Inr e)
              (slices64 (drop i buffer)) [c]"
        using c s by simp
      moreover have "chunk_loop buffer i chunks = Inr (chunks @ [c])"
        using True c nxt by (simp add: chunk_loop.simps [of buffer i])
      ultimately show ?thesis by blast
    qed
  qed
qed

lemma concat_slices64: "concat (slices64 b) = b"
proof (induction b rule: length_induct)
  case (1 xs)
  show ?case
  proof (cases "xs = []")
    case True
    then show ?thesis by (simp add: slices64_Nil)
  next
    case False
    then have "length (drop 64 xs) < length xs" by simp
    then have "concat (slices64 (drop 64 xs)) = drop 64 xs" using 1 by blast
    then show ?thesis using slices64_rec [OF False] by simp
  qed
qed

lemma encodePlutusBuiltinByteString_long:
  assumes "64 < length b"
  shows "\<exists>encs. list_all2 (\<lambda>s e. encodeCBORByteString s = Inr e) (slices64 b) encs \<and>
           encodePlutusBuiltinByteString b = Inr ([0x5f] @ concat encs @ [0xff])"
proof -
  obtain encs where e: "chunk_loop b 0 [[0x5f]] = Inr ([[0x5f]] @ encs)"
      "list_all2 (\<lambda>s e. encodeCBORByteString s = Inr e) (slices64 (drop 0 b)) encs"
    using chunk_loop_slices [of 0 b "[[0x5f]]"] by auto
  have "encodePlutusBuiltinByteString b = Inr ([0x5f] @ concat encs @ [0xff])"
    using assms e(1)
    by (simp add: encodePlutusBuiltinByteString_def PLUTUS_CHUNK_SIZE_def concatUint8Arrays_def)
  then show ?thesis using e(2) by auto
qed

text \<open>
  C2.  Up to 64 bytes the chunked encoder returns the definite byte string of its
  argument (and that encoding succeeds).  Beyond 64 bytes it returns \<open>0x5f\<close>, the
  definite byte strings of the successive 64-byte slices, and \<open>0xff\<close>.  Exactly 64
  bytes give one definite byte string with the header \<open>0x58 0x40\<close>; 65 bytes give two
  chunks, of 64 bytes and of 1 byte.
\<close>

theorem encodePlutusBuiltinByteString_chunks:
  "(length b \<le> 64 \<longrightarrow>
      encodePlutusBuiltinByteString b = encodeCBORByteString b \<and>
      (\<exists>e. encodeCBORByteString b = Inr e)) \<and>
   (64 < length b \<longrightarrow>
      (\<exists>encs. list_all2 (\<lambda>s e. encodeCBORByteString s = Inr e) (slices64 b) encs \<and>
         encodePlutusBuiltinByteString b = Inr ([0x5f] @ concat encs @ [0xff]))) \<and>
   (length b = 64 \<longrightarrow> encodePlutusBuiltinByteString b = Inr (0x58 # 0x40 # b)) \<and>
   (length b = 65 \<longrightarrow>
      encodePlutusBuiltinByteString b =
        Inr ([0x5f] @ (0x58 # 0x40 # take 64 b) @ (0x41 # drop 64 b) @ [0xff]))"
proof -
  have p1: "encodePlutusBuiltinByteString b = encodeCBORByteString b \<and>
      (\<exists>e. encodeCBORByteString b = Inr e)" if "length b \<le> 64"
    using that encodeCBORByteString_short [of b]
    by (simp add: encodePlutusBuiltinByteString_def PLUTUS_CHUNK_SIZE_def)
  have p2: "\<exists>encs. list_all2 (\<lambda>s e. encodeCBORByteString s = Inr e) (slices64 b) encs \<and>
         encodePlutusBuiltinByteString b = Inr ([0x5f] @ concat encs @ [0xff])"
    if "64 < length b"
    using that by (rule encodePlutusBuiltinByteString_long)
  have p3: "encodePlutusBuiltinByteString b = Inr (0x58 # 0x40 # b)" if "length b = 64"
    using that
    by (simp add: encodePlutusBuiltinByteString_def PLUTUS_CHUNK_SIZE_def
        encodeCBORByteString_def ToUint8_def)
  have p4: "encodePlutusBuiltinByteString b =
        Inr ([0x5f] @ (0x58 # 0x40 # take 64 b) @ (0x41 # drop 64 b) @ [0xff])"
    if l: "length b = 65"
  proof -
    have ne: "b \<noteq> []" using l by auto
    have ne2: "drop 64 b \<noteq> []" using l by simp
    have "drop 64 (drop 64 b) = []" using l by simp
    then have sl: "slices64 b = [take 64 b, drop 64 b]"
      using slices64_rec [OF ne] slices64_rec [OF ne2] l by (simp add: slices64_Nil)
    have e1: "encodeCBORByteString (take 64 b) = Inr (0x58 # 0x40 # take 64 b)"
      using l by (simp add: encodeCBORByteString_def ToUint8_def)
    have e2: "encodeCBORByteString (drop 64 b) = Inr (0x41 # drop 64 b)"
      using l by (simp add: encodeCBORByteString_def ToUint8_def)
    obtain encs where e: "list_all2 (\<lambda>s e. encodeCBORByteString s = Inr e) (slices64 b) encs"
        "encodePlutusBuiltinByteString b = Inr ([0x5f] @ concat encs @ [0xff])"
      using encodePlutusBuiltinByteString_long [of b] l by auto
    from e(1) have "encs = [0x58 # 0x40 # take 64 b, 0x41 # drop 64 b]"
      unfolding sl using e1 e2 by (auto simp: list_all2_Cons1)
    then show ?thesis using e(2) by simp
  qed
  show ?thesis using p1 p2 p3 p4 by blast
qed

theorem encodePlutusBuiltinByteString_chunks_witness:
  "encodePlutusBuiltinByteString [1, 2, 3] = Inr [0x43, 1, 2, 3] \<and>
   encodePlutusBuiltinByteString (replicate 64 7) = Inr (0x58 # 0x40 # replicate 64 7) \<and>
   encodePlutusBuiltinByteString (replicate 65 7) =
     Inr ([0x5f] @ (0x58 # 0x40 # replicate 64 7) @ [0x41, 7] @ [0xff]) \<and>
   (\<exists>encs. list_all2 (\<lambda>s e. encodeCBORByteString s = Inr e) (slices64 (replicate 65 7)) encs \<and>
      encodePlutusBuiltinByteString (replicate 65 7) = Inr ([0x5f] @ concat encs @ [0xff]))"
proof -
  have a: "encodeCBORByteString [1, 2, 3] = Inr [0x43, 1, 2, 3]"
    by (simp add: encodeCBORByteString_def ToUint8_def)
  have d: "drop 64 (replicate 65 (7 :: byte)) = [7]" by simp
  have w1: "encodePlutusBuiltinByteString [1, 2, 3] = Inr [0x43, 1, 2, 3]"
    using encodePlutusBuiltinByteString_chunks [of "[1, 2, 3]"] a by simp
  have w2: "encodePlutusBuiltinByteString (replicate 64 7) = Inr (0x58 # 0x40 # replicate 64 7)"
    using encodePlutusBuiltinByteString_chunks [of "replicate 64 7", THEN conjunct2, THEN conjunct2, THEN conjunct1]
    by simp
  have w3: "encodePlutusBuiltinByteString (replicate 65 7) =
     Inr ([0x5f] @ (0x58 # 0x40 # replicate 64 7) @ [0x41, 7] @ [0xff])"
    using encodePlutusBuiltinByteString_chunks [of "replicate 65 7"] d by simp
  have w4: "\<exists>encs. list_all2 (\<lambda>s e. encodeCBORByteString s = Inr e) (slices64 (replicate 65 7)) encs \<and>
      encodePlutusBuiltinByteString (replicate 65 7) = Inr ([0x5f] @ concat encs @ [0xff])"
    using encodePlutusBuiltinByteString_chunks [of "replicate 65 7", THEN conjunct2, THEN conjunct1]
    by simp
  show ?thesis using w1 w2 w3 w4 by (intro conjI)
qed

section \<open>Properties of the integer encoder\<close>

lemma be_nat_Nil: "be_nat [] = 0"
  by (simp add: be_nat_def)

lemma be_nat_snoc: "be_nat (bs @ [b]) = be_nat bs * 256 + unat b"
  by (simp add: be_nat_def)

lemma be_nat_1: "0 \<le> v \<Longrightarrow> v \<le> 255 \<Longrightarrow> be_nat [ToUint8 v] = nat v"
  by (simp add: be_nat_def ToUint8_unat)

lemma be_nat_2: "256 \<le> v \<Longrightarrow> v \<le> 65535 \<Longrightarrow>
  be_nat [ToUint8 (js_shr v 8), ToUint8 (js_and v 0xff)] = nat v"
  using hi_lo [of v] by (simp add: be_nat_def)

lemma and_255: "(x::int) AND 255 = x mod 256"
proof -
  have "(255::int) = mask 8" by (simp add: mask_eq_exp_minus_1)
  then have "x AND 255 = take_bit 8 x" by (simp only: take_bit_eq_mask)
  then show ?thesis by (simp add: take_bit_eq_mod)
qed

lemma ToInt32_255: "ToInt32 255 = 255"
  by (simp add: ToInt32_id)

lemma byte_of_shift:
  assumes "k \<le> 24"
  shows "ToUint8 (js_and (js_shr v k) 0xff) = word_of_int (v div 2 ^ k)"
proof -
  have a: "js_and (js_shr v k) 0xff = take_bit 8 (ToInt32 (drop_bit k (ToInt32 v)))"
    by (simp add: js_and_def js_shr_def ToInt32_255 and_255 take_bit_eq_mod)
  have "take_bit 8 (ToInt32 (drop_bit k (ToInt32 v))) = take_bit 8 (drop_bit k v)"
  proof (rule bit_eqI)
    fix n
    show "bit (take_bit 8 (ToInt32 (drop_bit k (ToInt32 v)))) n \<longleftrightarrow>
          bit (take_bit 8 (drop_bit k v)) n"
    proof (cases "n < 8")
      case True
      then have m: "min 31 n = n" "min 31 (k + n) = k + n" using assms by simp_all
      show ?thesis
        by (simp add: ToInt32_def sint_sbintrunc' bit_simps m)
    next
      case False
      then show ?thesis by (simp add: bit_simps)
    qed
  qed
  then show ?thesis
    unfolding ToUint8_def a
    by (simp add: word_of_int_eq_iff drop_bit_eq_div)
qed

lemma unat_word8_of_int: "unat (word_of_int x :: byte) = nat (x mod 256)"
  by (simp add: unat_eq_nat_uint uint_word_of_int take_bit_eq_mod)

lemma horner_int: "0 \<le> (x::int) \<Longrightarrow> nat (x div 256) * 256 + nat (x mod 256) = nat x"
proof -
  assume a: "0 \<le> x"
  have d: "0 \<le> x div 256" using a by (simp add: pos_imp_zdiv_nonneg_iff)
  have m: "0 \<le> x mod 256" by simp
  have "int (nat (x div 256) * 256 + nat (x mod 256)) = x" using d m by simp
  then show ?thesis by linarith
qed

lemma be_nat_4:
  assumes "0 \<le> v" "v < 2 ^ 32"
  shows "be_nat [ToUint8 (js_and (js_shr v 24) 0xff), ToUint8 (js_and (js_shr v 16) 0xff),
           ToUint8 (js_and (js_shr v 8) 0xff), ToUint8 (js_and v 0xff)] = nat v"
proof -
  have b0: "ToUint8 (js_and v 0xff) = word_of_int v"
    using byte_of_shift [of 0 v] by (simp add: js_shr_def js_and_def ToInt32_def)
  define v1 where "v1 = v div 256"
  define v2 where "v2 = v1 div 256"
  define v3 where "v3 = v2 div 256"
  have d: "v div 256 = v1" "v div 65536 = v2" "v div 16777216 = v3"
    unfolding v1_def v2_def v3_def by (simp_all add: zdiv_zmult2_eq)
  have nn: "0 \<le> v1" "0 \<le> v2" "0 \<le> v3" using assms unfolding v1_def v2_def v3_def by simp_all
  have small: "v3 < 256" using assms d(3) by simp
  then have m3: "v3 mod 256 = v3" using nn by simp
  have "be_nat [word_of_int v3, word_of_int v2, word_of_int v1, word_of_int v] =
      ((nat (v3 mod 256) * 256 + nat (v2 mod 256)) * 256 + nat (v1 mod 256)) * 256 + nat (v mod 256)"
    by (simp add: be_nat_def unat_word8_of_int)
  also have "\<dots> = ((nat (v2 div 256) * 256 + nat (v2 mod 256)) * 256 + nat (v1 mod 256)) * 256
      + nat (v mod 256)"
    by (subst m3) (simp only: v3_def)
  also have "\<dots> = (nat (v1 div 256) * 256 + nat (v1 mod 256)) * 256 + nat (v mod 256)"
    by (subst horner_int [OF nn(2)]) (simp only: v2_def)
  also have "\<dots> = nat (v div 256) * 256 + nat (v mod 256)"
    by (subst horner_int [OF nn(1)]) (simp only: v1_def)
  also have "\<dots> = nat v" by (rule horner_int [OF assms(1)])
  finally show ?thesis
    using byte_of_shift [of 24 v] byte_of_shift [of 16 v] byte_of_shift [of 8 v] b0
    by (simp add: d)
qed

lemma length_setBigUint64: "length (setBigUint64 big) = 8"
  by (simp add: setBigUint64_def Let_def)

lemma setBigUint64_byte:
  "unat (ucast (drop_bit k (w :: 64 word)) :: byte) = unat w div 2 ^ k mod 256"
  apply (simp only: unsigned_ucast_eq unat_drop_bit_eq)
  apply (simp add: take_bit_eq_mod drop_bit_eq_div)
  done

lemma horner_nat: "(x::nat) div 256 * 256 + x mod 256 = x"
  by simp

lemma be_nat_8:
  assumes "0 \<le> v" "v < 2 ^ 64"
  shows "be_nat (setBigUint64 v) = nat v"
proof -
  define w where "w = (word_of_int v :: 64 word)"
  define x where "x = unat w"
  have xv: "x = nat v"
    using assms unfolding x_def w_def
    by (simp add: unat_eq_nat_uint uint_word_of_int take_bit_int_eq_self)
  define x1 where "x1 = x div 256"
  define x2 where "x2 = x1 div 256"
  define x3 where "x3 = x2 div 256"
  define x4 where "x4 = x3 div 256"
  define x5 where "x5 = x4 div 256"
  define x6 where "x6 = x5 div 256"
  define x7 where "x7 = x6 div 256"
  have d: "x div 256 = x1" "x div 65536 = x2" "x div 16777216 = x3" "x div 4294967296 = x4"
    "x div 1099511627776 = x5" "x div 281474976710656 = x6" "x div 72057594037927936 = x7"
    unfolding x1_def x2_def x3_def x4_def x5_def x6_def x7_def
    by (simp_all add: div_mult2_eq)
  have b0: "unat (ucast w :: byte) = x mod 256"
    using setBigUint64_byte [of 0 w] by (simp add: x_def)
  have "x < 2 ^ 64" unfolding x_def using unsigned_less [of w] by simp
  then have "x7 < 256" using d(7) by (simp add: less_mult_imp_div_less)
  then have m7: "x7 mod 256 = x7" by simp
  have "be_nat (setBigUint64 v) =
     ((((((x7 mod 256 * 256 + x6 mod 256) * 256 + x5 mod 256) * 256 + x4 mod 256) * 256
        + x3 mod 256) * 256 + x2 mod 256) * 256 + x1 mod 256) * 256 + x mod 256"
    unfolding setBigUint64_def Let_def w_def [symmetric]
    by (simp add: be_nat_def setBigUint64_byte x_def [symmetric] d b0
        del: distrib_right_numeral distrib_left_numeral)
  also have "\<dots> = ((((((x6 div 256 * 256 + x6 mod 256) * 256 + x5 mod 256) * 256 + x4 mod 256) * 256
        + x3 mod 256) * 256 + x2 mod 256) * 256 + x1 mod 256) * 256 + x mod 256"
    by (subst m7) (simp only: x7_def)
  also have "\<dots> = x"
    unfolding x6_def x5_def x4_def x3_def x2_def x1_def by (simp only: horner_nat)
  finally show ?thesis using xv by simp
qed

lemma nearest_double_small: "\<bar>x\<bar> < 2 ^ 53 \<Longrightarrow> nearest_double x = x"
proof -
  assume "\<bar>x\<bar> < 2 ^ 53"
  then have "nat \<bar>x\<bar> < 2 ^ 53" by (simp add: nat_less_iff)
  then show ?thesis by (simp add: nearest_double_def Let_def)
qed

lemma ladder_small: "0 \<le> v \<Longrightarrow> v \<le> 23 \<Longrightarrow> width_ladder m (nat v) [ToUint8 (int m + v)]"
  by (simp add: width_ladder_def ToUint8_def nat_le_iff)

lemma ladder_1: "23 < v \<Longrightarrow> v \<le> 255 \<Longrightarrow> h = of_nat (m + 0x18) \<Longrightarrow>
   width_ladder m (nat v) [h, ToUint8 v]"
  using be_nat_1 [of v] by (simp add: width_ladder_def nat_le_iff)

lemma ladder_2: "255 < v \<Longrightarrow> v \<le> 65535 \<Longrightarrow> h = of_nat (m + 0x19) \<Longrightarrow>
   width_ladder m (nat v) [h, ToUint8 (js_shr v 8), ToUint8 (js_and v 0xff)]"
  using be_nat_2 [of v] by (simp add: width_ladder_def nat_le_iff)

lemma ladder_4: "65535 < v \<Longrightarrow> v \<le> 4294967295 \<Longrightarrow> h = of_nat (m + 0x1a) \<Longrightarrow>
   width_ladder m (nat v) [h, ToUint8 (js_and (js_shr v 24) 0xff),
     ToUint8 (js_and (js_shr v 16) 0xff), ToUint8 (js_and (js_shr v 8) 0xff),
     ToUint8 (js_and v 0xff)]"
  using be_nat_4 [of v] by (simp add: width_ladder_def nat_le_iff)

lemma ladder_8: "4294967295 < v \<Longrightarrow> v < 2 ^ 64 \<Longrightarrow> h = of_nat (m + 0x1b) \<Longrightarrow>
   width_ladder m (nat v) (h # setBigUint64 v)"
  using be_nat_8 [of v] by (simp add: width_ladder_def nat_le_iff length_setBigUint64)

lemma ladder_nonneg:
  assumes "0 \<le> n" "n < 2 ^ 64"
  shows "width_ladder 0 (nat n) (encodePlutusInteger n)"
proof -
  consider "n \<le> 23" | "23 < n" "n \<le> 255" | "255 < n" "n \<le> 65535"
    | "65535 < n" "n \<le> 4294967295" | "4294967295 < n" by linarith
  then show ?thesis
  proof cases
    case 1
    then show ?thesis using assms ladder_small [of n 0] by (simp add: encodePlutusInteger_def)
  next
    case 2
    then show ?thesis using assms ladder_1 [of n "0x18" "0"] by (simp add: encodePlutusInteger_def)
  next
    case 3
    then show ?thesis using assms ladder_2 [of n "0x19" "0"] by (simp add: encodePlutusInteger_def)
  next
    case 4
    then show ?thesis using assms ladder_4 [of n "0x1a" "0"] by (simp add: encodePlutusInteger_def)
  next
    case 5
    then show ?thesis using assms ladder_8 [of n "0x1b" "0"] by (simp add: encodePlutusInteger_def)
  qed
qed

lemma ladder_neg:
  assumes "- (2 ^ 53) \<le> n" "n < 0"
  shows "width_ladder 0x20 (nat (- 1 - n)) (encodePlutusInteger n)"
proof -
  define v where "v = - 1 - n"
  have v: "0 \<le> v" "v < 2 ^ 53" using assms unfolding v_def by simp_all
  have a: "js_sub (- 1) n = v"
    unfolding js_sub_def v_def [symmetric] using v by (simp add: nearest_double_small)
  have big: "v < 2 ^ 64" using v(2) by simp
  consider "v \<le> 23" | "23 < v" "v \<le> 255" | "255 < v" "v \<le> 65535"
    | "65535 < v" "v \<le> 4294967295" | "4294967295 < v" by linarith
  then have "width_ladder 0x20 (nat v) (encodePlutusInteger n)"
  proof cases
    case 1
    then show ?thesis using assms v ladder_small [of v "0x20"]
      by (simp add: encodePlutusInteger_def a)
  next
    case 2
    then show ?thesis using assms ladder_1 [of v "0x38" "0x20"]
      by (simp add: encodePlutusInteger_def a)
  next
    case 3
    then show ?thesis using assms ladder_2 [of v "0x39" "0x20"]
      by (simp add: encodePlutusInteger_def a)
  next
    case 4
    then show ?thesis using assms ladder_4 [of v "0x3a" "0x20"]
      by (simp add: encodePlutusInteger_def a)
  next
    case 5
    then show ?thesis using assms big ladder_8 [of v "0x3b" "0x20"]
      by (simp add: encodePlutusInteger_def a)
  qed
  then show ?thesis unfolding v_def .
qed

text \<open>
  C4, as amended.  For \<open>0 \<le> n < 2^64\<close> the integer encoder follows the width ladder
  under major type 0 (header \<open>n\<close> itself up to 23, then \<open>0x18\<close>, \<open>0x19\<close>, \<open>0x1a\<close>,
  \<open>0x1b\<close> with 1, 2, 4, 8 big-endian bytes that hold \<open>n\<close> exactly); for
  \<open>-2^53 \<le> n < 0\<close> it follows the same ladder for \<open>-1 - n\<close> under major type 1
  (headers \<open>0x20 + v\<close>, \<open>0x38\<close>, \<open>0x39\<close>, \<open>0x3a\<close>, \<open>0x3b\<close>).
\<close>

theorem encodePlutusInteger_ladder:
  "(0 \<le> n \<and> n < 2 ^ 64 \<longrightarrow> width_ladder 0x00 (nat n) (encodePlutusInteger n)) \<and>
   (- (2 ^ 53) \<le> n \<and> n < 0 \<longrightarrow> width_ladder 0x20 (nat (- 1 - n)) (encodePlutusInteger n))"
  using ladder_nonneg [of n] ladder_neg [of n] by simp

theorem encodePlutusInteger_ladder_witness:
  "encodePlutusInteger 1769027280000 = [0x1b, 0, 0, 1, 0x9b, 0xe2, 0x3e, 0x1c, 0x80] \<and>
   width_ladder 0x00 1769027280000 (encodePlutusInteger 1769027280000) \<and>
   encodePlutusInteger (- 500) = [0x39, 1, 0xf3] \<and>
   width_ladder 0x20 499 (encodePlutusInteger (- 500))"
proof -
  have e1: "encodePlutusInteger 1769027280000 = [0x1b, 0, 0, 1, 0x9b, 0xe2, 0x3e, 0x1c, 0x80]"
    by (simp add: encodePlutusInteger_def setBigUint64_def drop_bit_eq_div)
  have e2: "encodePlutusInteger (- 500) = [0x39, 1, 0xf3]"
    by (simp add: encodePlutusInteger_def js_sub_def nearest_double_def ToUint8_def
        js_shr_def js_and_def ToInt32_def)
  have w1: "width_ladder 0x00 1769027280000 (encodePlutusInteger 1769027280000)"
    using encodePlutusInteger_ladder [of 1769027280000] by simp
  have w2: "width_ladder 0x20 499 (encodePlutusInteger (- 500))"
    using encodePlutusInteger_ladder [of "- 500"] by simp
  show ?thesis using e1 e2 w1 w2 by (intro conjI)
qed

text \<open>
  C4 as stated fails outside these ranges: \<open>2^64\<close> is encoded as \<open>0x1b\<close> and eight
  zero bytes, which hold 0; and for \<open>n = -(2^53 + 2)\<close> the subtraction \<open>-1 - n\<close>
  rounds to \<open>2^53\<close>, so the eight bytes hold \<open>2^53\<close> and not \<open>-1 - n = 2^53 + 1\<close>.
\<close>

theorem encodePlutusInteger_ladder_counterexample:
  "encodePlutusInteger (2 ^ 64) = [0x1b, 0, 0, 0, 0, 0, 0, 0, 0] \<and>
   \<not> width_ladder 0x00 (nat (2 ^ 64)) (encodePlutusInteger (2 ^ 64)) \<and>
   encodePlutusInteger (- (2 ^ 53) - 2) = [0x3b, 0, 0x20, 0, 0, 0, 0, 0, 0] \<and>
   \<not> width_ladder 0x20 (nat (- 1 - (- (2 ^ 53) - 2))) (encodePlutusInteger (- (2 ^ 53) - 2))"
proof -
  have e1: "encodePlutusInteger (2 ^ 64) = [0x1b, 0, 0, 0, 0, 0, 0, 0, 0]"
    by (simp add: encodePlutusInteger_def setBigUint64_def drop_bit_eq_div)
  have bl: "bit_length 9007199254740993 = 54"
    by (simp add: bit_length.simps)
  have nd: "nearest_double 9007199254740993 = 9007199254740992"
    by (simp add: nearest_double_def bl Let_def)
  have e2: "encodePlutusInteger (- (2 ^ 53) - 2) = [0x3b, 0, 0x20, 0, 0, 0, 0, 0, 0]"
    by (simp add: encodePlutusInteger_def js_sub_def nd setBigUint64_def drop_bit_eq_div)
  have n1: "\<not> width_ladder 0x00 (nat (2 ^ 64)) (encodePlutusInteger (2 ^ 64))"
    unfolding e1 by (simp add: width_ladder_def be_nat_def)
  have n2: "\<not> width_ladder 0x20 (nat (- 1 - (- (2 ^ 53) - 2))) (encodePlutusInteger (- (2 ^ 53) - 2))"
    unfolding e2 by (simp add: width_ladder_def be_nat_def)
  show ?thesis using e1 e2 n1 n2 by (intro conjI)
qed

section \<open>Properties of the task and SLT encoders\<close>

lemma encodePlutusBuiltinByteString_total: "\<exists>e. encodePlutusBuiltinByteString b = Inr e"
proof (cases "length b \<le> 64")
  case True
  then show ?thesis
    using encodeCBORByteString_short [of b]
    by (simp add: encodePlutusBuiltinByteString_def PLUTUS_CHUNK_SIZE_def)
next
  case False
  then show ?thesis using encodePlutusBuiltinByteString_long [of b] by auto
qed

lemma encodeNativeAssets_loop_elems:
  "\<exists>elems chs.
     list_all2 (\<lambda>(assetClass, quantity) e.
        \<exists>c. encodePlutusBuiltinByteString (TextEncoder_encode assetClass) = Inr c \<and>
            e = [0x82] @ c @ encodePlutusInteger quantity) assets elems \<and>
     encodeNativeAssets_loop assets chunks = Inr (chunks @ chs) \<and>
     concat chs = concat elems"
proof (induction assets arbitrary: chunks)
  case Nil
  show ?case by simp
next
  case (Cons a assets)
  obtain assetClass quantity where a: "a = (assetClass, quantity)" by (cases a)
  obtain c where c: "encodePlutusBuiltinByteString (TextEncoder_encode assetClass) = Inr c"
    using encodePlutusBuiltinByteString_total by blast
  let ?chunks' = "chunks @ [[0x82]] @ [c] @ [encodePlutusInteger quantity]"
  from Cons.IH [of ?chunks'] obtain elems chs where
    ih: "list_all2 (\<lambda>(assetClass, quantity) e.
        \<exists>c. encodePlutusBuiltinByteString (TextEncoder_encode assetClass) = Inr c \<and>
            e = [0x82] @ c @ encodePlutusInteger quantity) assets elems"
      "encodeNativeAssets_loop assets ?chunks' = Inr (?chunks' @ chs)"
      "concat chs = concat elems"
    by blast
  let ?e = "[0x82] @ c @ encodePlutusInteger quantity"
  have 1: "list_all2 (\<lambda>(assetClass, quantity) e.
        \<exists>c. encodePlutusBuiltinByteString (TextEncoder_encode assetClass) = Inr c \<and>
            e = [0x82] @ c @ encodePlutusInteger quantity) (a # assets) (?e # elems)"
    using ih(1) c a by simp
  have 2: "encodeNativeAssets_loop (a # assets) chunks =
      Inr (chunks @ ([[0x82], c, encodePlutusInteger quantity] @ chs))"
    using ih(2) c a by simp
  have 3: "concat ([[0x82], c, encodePlutusInteger quantity] @ chs) = concat (?e # elems)"
    using ih(3) by simp
  show ?case using 1 2 3 by blast
qed

lemma encodeNativeAssets_nonempty:
  assumes "assets \<noteq> []"
  shows "\<exists>elems.
     list_all2 (\<lambda>(assetClass, quantity) e.
        \<exists>c. encodePlutusBuiltinByteString (TextEncoder_encode assetClass) = Inr c \<and>
            e = [0x82] @ c @ encodePlutusInteger quantity) assets elems \<and>
     encodeNativeAssets assets = Inr ([0x9f] @ concat elems @ [0xff])"
proof -
  obtain elems chs where
    e: "list_all2 (\<lambda>(assetClass, quantity) e.
        \<exists>c. encodePlutusBuiltinByteString (TextEncoder_encode assetClass) = Inr c \<and>
            e = [0x82] @ c @ encodePlutusInteger quantity) assets elems"
      "encodeNativeAssets_loop assets [[0x9f]] = Inr ([[0x9f]] @ chs)"
      "concat chs = concat elems"
    using encodeNativeAssets_loop_elems [of assets "[[0x9f]]"] by blast
  have "encodeNativeAssets assets = Inr ([0x9f] @ concat elems @ [0xff])"
    using assms e(2) e(3) by (simp add: encodeNativeAssets_def concatUint8Arrays_def)
  then show ?thesis using e(1) by blast
qed

lemma encodeNativeAssets_total: "\<exists>e. encodeNativeAssets assets = Inr e"
proof (cases "assets = []")
  case True
  then show ?thesis by (simp add: encodeNativeAssets_def)
next
  case False
  then show ?thesis using encodeNativeAssets_nonempty [of assets] by blast
qed

text \<open>
  C1.  The task encoder emits the tag bytes \<open>0xd8 0x79\<close>, the array start \<open>0x9f\<close>,
  the chunked byte string of the UTF-8 content, the integer expiration, the integer
  lovelace amount, the native-assets list and the break \<open>0xff\<close>, in this order;
  \<open>debugTaskCBOR\<close> shows the same bytes in hexadecimal.  A non-empty native-assets list
  is \<open>0x9f\<close>, one element per asset and \<open>0xff\<close>, where an element is \<open>0x82\<close>, the
  chunked byte string of the asset-class identifier and the integer quantity.
\<close>

theorem encodeTaskAsPlutusData_layout:
  "\<exists>content assets.
     encodePlutusBuiltinByteString (TextEncoder_encode (project_content task)) = Inr content \<and>
     encodeNativeAssets (native_assets task) = Inr assets \<and>
     encodeTaskAsPlutusData task =
       Inr ([0xd8, 0x79] @ [0x9f] @ content @ encodePlutusInteger (expiration_time task) @
            encodePlutusInteger (lovelace_amount task) @ assets @ [0xff]) \<and>
     debugTaskCBOR task =
       Inr (uint8ArrayToHex
             ([0xd8, 0x79] @ [0x9f] @ content @ encodePlutusInteger (expiration_time task) @
              encodePlutusInteger (lovelace_amount task) @ assets @ [0xff])) \<and>
     (native_assets task \<noteq> [] \<longrightarrow>
        (\<exists>elems.
           list_all2 (\<lambda>(assetClass, quantity) e.
              \<exists>c. encodePlutusBuiltinByteString (TextEncoder_encode assetClass) = Inr c \<and>
                  e = [0x82] @ c @ encodePlutusInteger quantity) (native_assets task) elems \<and>
           assets = [0x9f] @ concat elems @ [0xff]))"
proof -
  obtain content where
    c: "encodePlutusBuiltinByteString (TextEncoder_encode (project_content task)) = Inr content"
    using encodePlutusBuiltinByteString_total by blast
  obtain assets where a: "encodeNativeAssets (native_assets task) = Inr assets"
    using encodeNativeAssets_total by blast
  have t: "encodeTaskAsPlutusData task =
       Inr ([0xd8, 0x79] @ [0x9f] @ content @ encodePlutusInteger (expiration_time task) @
            encodePlutusInteger (lovelace_amount task) @ assets @ [0xff])"
    using c a by (simp add: encodeTaskAsPlutusData_def concatUint8Arrays_def)
  have d: "debugTaskCBOR task =
       Inr (uint8ArrayToHex
             ([0xd8, 0x79] @ [0x9f] @ content @ encodePlutusInteger (expiration_time task) @
              encodePlutusInteger (lovelace_amount task) @ assets @ [0xff]))"
    unfolding debugTaskCBOR_def t by simp
  have n: "\<exists>elems.
           list_all2 (\<lambda>(assetClass, quantity) e.
              \<exists>c. encodePlutusBuiltinByteString (TextEncoder_encode assetClass) = Inr c \<and>
                  e = [0x82] @ c @ encodePlutusInteger quantity) (native_assets task) elems \<and>
           assets = [0x9f] @ concat elems @ [0xff]"
    if "native_assets task \<noteq> []"
    using encodeNativeAssets_nonempty [OF that] a by auto
  show ?thesis using c a t d n by blast
qed

lemma js_Nil: "js [] = []"
  by (simp add: js_def)

lemma js_Cons: "js (c # cs) = of_nat (of_char c) # js cs"
  by (simp add: js_def)

lemma scalar_values_ascii:
  "c < 0x80 \<Longrightarrow> scalar_values (c # cs) = unat c # scalar_values cs"
proof (cases cs)
  case Nil
  assume "c < 0x80"
  then have "\<not> is_high_surrogate c" "\<not> is_low_surrogate c"
    by (auto simp: is_high_surrogate_def is_low_surrogate_def word_le_nat_alt word_less_nat_alt)
  then show ?thesis using Nil by simp
next
  case (Cons d ds)
  assume "c < 0x80"
  then have "\<not> is_high_surrogate c" "\<not> is_low_surrogate c"
    by (auto simp: is_high_surrogate_def is_low_surrogate_def word_le_nat_alt word_less_nat_alt)
  then show ?thesis using Cons by simp
qed

lemma TextEncoder_encode_Nil: "TextEncoder_encode [] = []"
  by (simp add: TextEncoder_encode_def)

lemma TextEncoder_encode_ascii:
  "c < 0x80 \<Longrightarrow> TextEncoder_encode (c # cs) = ucast c # TextEncoder_encode cs"
proof -
  assume a: "c < 0x80"
  then have "unat c < 0x80" by (simp add: word_less_nat_alt)
  then have "utf8_bytes (unat c) = [ucast c]"
    by (simp add: utf8_bytes_def)
  then show ?thesis using scalar_values_ascii [OF a] by (simp add: TextEncoder_encode_def)
qed

theorem encodeTaskAsPlutusData_layout_witness:
  "native_assets \<lparr>project_content = js ''Open Task #1'', expiration_time = 1769027280000,
      lovelace_amount = 15000000, native_assets = [(js ''ab.cd'', 5)]\<rparr> \<noteq> [] \<and>
   debugTaskCBOR \<lparr>project_content = js ''Open Task #1'', expiration_time = 1769027280000,
      lovelace_amount = 15000000, native_assets = [(js ''ab.cd'', 5)]\<rparr> =
     Inr (js ''d8799f4c4f70656e205461736b2023311b0000019be23e1c801a00e4e1c09f824561622e636405ffff'')"
proof -
  let ?t = "\<lparr>project_content = js ''Open Task #1'', expiration_time = 1769027280000,
      lovelace_amount = 15000000, native_assets = [(js ''ab.cd'', 5)]\<rparr>"
  have t1: "TextEncoder_encode (js ''Open Task #1'') = [79, 112, 101, 110, 32, 84, 97, 115, 107, 32, 35, 49]"
    by (simp add: js_Cons js_Nil TextEncoder_encode_ascii TextEncoder_encode_Nil)
  have t2: "TextEncoder_encode (js ''ab.cd'') = [97, 98, 46, 99, 100]"
    by (simp add: js_Cons js_Nil TextEncoder_encode_ascii TextEncoder_encode_Nil)
  have c0: "encodePlutusBuiltinByteString [79, 112, 101, 110, 32, 84, 97, 115, 107, 32, 35, 49] = Inr [76, 79, 112, 101, 110, 32, 84, 97, 115, 107, 32, 35, 49]"
    by (simp add: encodePlutusBuiltinByteString_def PLUTUS_CHUNK_SIZE_def
        encodeCBORByteString_def ToUint8_def)
  have c1: "encodePlutusBuiltinByteString [97, 98, 46, 99, 100] = Inr [69, 97, 98, 46, 99, 100]"
    by (simp add: encodePlutusBuiltinByteString_def PLUTUS_CHUNK_SIZE_def
        encodeCBORByteString_def ToUint8_def)
  have i1: "encodePlutusInteger 1769027280000 = [0x1b, 0, 0, 1, 0x9b, 0xe2, 0x3e, 0x1c, 0x80]"
    by (simp add: encodePlutusInteger_def setBigUint64_def drop_bit_eq_div)
  have i2: "encodePlutusInteger 15000000 = [0x1a, 0, 0xe4, 0xe1, 0xc0]"
    by (simp add: encodePlutusInteger_def js_and_def js_shr_def ToInt32_def ToUint8_def
        drop_bit_eq_div)
  have i3: "encodePlutusInteger 5 = [5]"
    by (simp add: encodePlutusInteger_def ToUint8_def)
  obtain content assets where
    l: "encodePlutusBuiltinByteString (TextEncoder_encode (project_content ?t)) = Inr content"
       "debugTaskCBOR ?t =
         Inr (uint8ArrayToHex
             ([0xd8, 0x79] @ [0x9f] @ content @ encodePlutusInteger (expiration_time ?t) @
              encodePlutusInteger (lovelace_amount ?t) @ assets @ [0xff]))"
       "native_assets ?t \<noteq> [] \<longrightarrow>
        (\<exists>elems.
           list_all2 (\<lambda>(assetClass, quantity) e.
              \<exists>c. encodePlutusBuiltinByteString (TextEncoder_encode assetClass) = Inr c \<and>
                  e = [0x82] @ c @ encodePlutusInteger quantity) (native_assets ?t) elems \<and>
           assets = [0x9f] @ concat elems @ [0xff])"
    using encodeTaskAsPlutusData_layout [of ?t] by blast
  have content: "content = [76, 79, 112, 101, 110, 32, 84, 97, 115, 107, 32, 35, 49]"
    using l(1) by (simp add: t1 c0)
  have assets: "assets = [0x9f] @ [0x82] @ [69, 97, 98, 46, 99, 100] @ [5] @ [0xff]"
    using l(3) by (auto simp: list_all2_Cons1 t2 c1 i3)
  have "debugTaskCBOR ?t =
     Inr (js ''d8799f4c4f70656e205461736b2023311b0000019be23e1c801a00e4e1c09f824561622e636405ffff'')"
    unfolding l(2) content assets
    by (simp add: i1 i2 uint8ArrayToHex_def hex_digit_def js_Cons js_Nil)
  then show ?thesis by simp
qed

text \<open>
  C3.  The native-asset list of a task is \<open>0x80\<close> when empty, but the SLT array has no
  such case: for the empty list \<open>encodeAsPlutusArray\<close> returns the empty indefinite
  array \<open>0x9f 0xff\<close>.
\<close>

theorem encodeAsPlutusArray_empty:
  "encodeAsPlutusArray [] = Inr [0x9f, 0xff] \<and> encodeNativeAssets [] = Inr [0x80]"
  by (simp add: encodeAsPlutusArray_def encodeNativeAssets_def concatUint8Arrays_def)

section \<open>Properties of the normal form of evidence\<close>

lemma set_property_proto: "set_property props proto_key v = props"
  by (simp add: set_property_def)

lemma keys_insert_index:
  "fst ` set (insert_index i kv props) = insert (fst kv) (fst ` set props)"
  by (induction props) (auto split: option.splits)

lemma map_of_insert_index:
  "k \<notin> fst ` set props \<Longrightarrow> map_of (insert_index i (k, v) props) = (map_of props)(k \<mapsto> v)"
proof (induction props)
  case Nil
  show ?case by simp
next
  case (Cons p props)
  then have ne: "fst p \<noteq> k" and nin: "k \<notin> fst ` set props" by auto
  obtain k' w where p: "p = (k', w)" by (cases p)
  show ?case
  proof (cases "array_index (fst p)")
    case None
    then show ?thesis using ne by (auto simp: fun_eq_iff)
  next
    case (Some j)
    show ?thesis
    proof (cases "j < i")
      case True
      then show ?thesis using Some Cons.IH [OF nin] ne p by (auto simp: fun_eq_iff)
    next
      case False
      then show ?thesis using Some ne by (auto simp: fun_eq_iff)
    qed
  qed
qed

lemma distinct_insert_index:
  "k \<notin> fst ` set props \<Longrightarrow> distinct (map fst props) \<Longrightarrow>
   distinct (map fst (insert_index i (k, v) props))"
proof (induction props)
  case Nil
  show ?case by simp
next
  case (Cons p props)
  then show ?case
    using keys_insert_index [of i "(k, v)" props]
    by (auto split: option.splits)
qed

lemma keys_set_property:
  "fst ` set (set_property props k v) =
     (if k = proto_key then fst ` set props else insert k (fst ` set props))"
proof -
  have "fst ` set (map (\<lambda>(k', w). if k' = k then (k', v) else (k', w)) props) = fst ` set props"
    by (induction props) auto
  then show ?thesis
    by (auto simp: set_property_def keys_insert_index split: option.splits)
qed

lemma map_of_update_in_place_at:
  "map_of (map (\<lambda>(k', w). if k' = k then (k', v) else (k', w)) props) x =
     (if x = k \<and> k \<in> fst ` set props then Some v else map_of props x)"
proof (induction props arbitrary: x)
  case Nil
  show ?case by simp
next
  case (Cons p props)
  obtain k' w where p: "p = (k', w)" by (cases p)
  show ?case
  proof (cases "k' = k")
    case True
    then show ?thesis using Cons p by simp
  next
    case False
    then show ?thesis using Cons p by simp
  qed
qed

lemma map_of_update_in_place:
  "k \<in> fst ` set props \<Longrightarrow>
   map_of (map (\<lambda>(k', w). if k' = k then (k', v) else (k', w)) props) = (map_of props)(k \<mapsto> v)"
  by (simp add: fun_eq_iff map_of_update_in_place_at)

lemma map_of_snoc:
  "k \<notin> fst ` set props \<Longrightarrow> map_of (props @ [(k, v)]) = (map_of props)(k \<mapsto> v)"
  by (induction props) (auto simp: fun_eq_iff)

lemma map_of_set_property:
  "map_of (set_property props k v) =
     (if k = proto_key then map_of props else (map_of props)(k \<mapsto> v))"
proof (cases "k = proto_key")
  case True
  then show ?thesis by (simp add: set_property_def)
next
  case False
  show ?thesis
  proof (cases "k \<in> fst ` set props")
    case True
    then show ?thesis using False map_of_update_in_place [OF True]
      by (simp add: set_property_def)
  next
    case nin: False
    then show ?thesis using False map_of_insert_index [OF nin] map_of_snoc [OF nin]
      by (simp add: set_property_def split: option.splits)
  qed
qed

lemma keys_update_in_place:
  "map fst (map (\<lambda>(k', w). if k' = k then (k', v) else (k', w)) props) = map fst props"
  by (induction props) auto

lemma distinct_set_property:
  assumes d: "distinct (map fst props)"
  shows "distinct (map fst (set_property props k v))"
proof (cases "k = proto_key")
  case True
  then show ?thesis using d by (simp add: set_property_def)
next
  case False
  show ?thesis
  proof (cases "k \<in> fst ` set props")
    case True
    then have "set_property props k v = map (\<lambda>(k', w). if k' = k then (k', v) else (k', w)) props"
      using False by (simp add: set_property_def)
    then show ?thesis using d by (simp only: keys_update_in_place)
  next
    case nin: False
    show ?thesis
    proof (cases "array_index k")
      case None
      then have "set_property props k v = props @ [(k, v)]"
        using False nin by (simp add: set_property_def)
      then show ?thesis using d nin by simp
    next
      case (Some i)
      then have "set_property props k v = insert_index i (k, v) props"
        using False nin by (simp add: set_property_def)
      then show ?thesis using distinct_insert_index [OF nin d, of i v] by simp
    qed
  qed
qed

lemma set_property_append:
  "k \<noteq> proto_key \<Longrightarrow> array_index k = None \<Longrightarrow> k \<notin> fst ` set props \<Longrightarrow>
   set_property props k v = props @ [(k, v)]"
  by (simp add: set_property_def)

lemma assign_all_Nil: "assign_all acc [] = acc"
  by (simp add: assign_all_def)

lemma assign_all_Cons: "assign_all acc ((k, v) # kvs) = assign_all (set_property acc k v) kvs"
  by (simp add: assign_all_def)

lemma loop_as_assign:
  "foldl (\<lambda>sorted key.
            (case map_of props key of
               None \<Rightarrow> sorted
             | Some val \<Rightarrow>
                 if val \<noteq> Undefined then set_property sorted key (normalizeForHashing val)
                 else sorted)) acc ks
   = assign_all acc (entries props ks)"
proof (induction ks arbitrary: acc)
  case Nil
  show ?case by (simp add: entries_def assign_all_Nil)
next
  case (Cons k ks)
  have e: "entries props (k # ks) =
     (case map_of props k of
        None \<Rightarrow> entries props ks
      | Some val \<Rightarrow> if val \<noteq> Undefined then (k, normalizeForHashing val) # entries props ks
                    else entries props ks)"
    by (simp add: entries_def split: option.splits)
  show ?case
    unfolding e using Cons.IH
    by (simp add: assign_all_Cons split: option.splits)
qed

lemma normalize_Obj:
  "normalizeForHashing (Obj props) = Obj (assign_all [] (entries props (sort (Object_keys props))))"
  by (simp add: loop_as_assign)

lemma keys_assign_all:
  "fst ` set (assign_all acc kvs) = fst ` set acc \<union> {k \<in> fst ` set kvs. k \<noteq> proto_key}"
proof (induction kvs arbitrary: acc)
  case Nil
  show ?case by (simp add: assign_all_Nil)
next
  case (Cons kv kvs)
  obtain k v where kv: "kv = (k, v)" by (cases kv)
  show ?case
    unfolding kv assign_all_Cons Cons.IH keys_set_property by auto
qed

lemma distinct_assign_all:
  "distinct (map fst acc) \<Longrightarrow> distinct (map fst (assign_all acc kvs))"
proof (induction kvs arbitrary: acc)
  case Nil
  then show ?case by (simp add: assign_all_Nil)
next
  case (Cons kv kvs)
  obtain k v where kv: "kv = (k, v)" by (cases kv)
  show ?case
    unfolding kv assign_all_Cons
    by (rule Cons.IH) (rule distinct_set_property [OF Cons.prems])
qed

lemma map_of_assign_all:
  "distinct (map fst kvs) \<Longrightarrow>
   map_of (assign_all acc kvs) k =
     (if k \<noteq> proto_key \<and> k \<in> fst ` set kvs then map_of kvs k else map_of acc k)"
proof (induction kvs arbitrary: acc)
  case Nil
  show ?case by (simp add: assign_all_Nil)
next
  case (Cons kv kvs)
  obtain k' v where kv: "kv = (k', v)" by (cases kv)
  have d: "distinct (map fst kvs)" and nin: "k' \<notin> fst ` set kvs"
    using Cons.prems kv by auto
  show ?case
    unfolding kv assign_all_Cons Cons.IH [OF d] map_of_set_property
    using nin by (auto simp: map_of_eq_None_iff)
qed

lemma assign_all_filter_proto:
  "assign_all acc (filter (\<lambda>kv. fst kv \<noteq> proto_key) kvs) = assign_all acc kvs"
proof (induction kvs arbitrary: acc)
  case Nil
  show ?case by simp
next
  case (Cons kv kvs)
  obtain k v where kv: "kv = (k, v)" by (cases kv)
  show ?case
    unfolding kv using Cons.IH
    by (simp add: assign_all_Cons set_property_proto)
qed

lemma assign_all_append:
  "distinct (map fst kvs) \<Longrightarrow> fst ` set acc \<inter> fst ` set kvs = {} \<Longrightarrow>
   \<forall>k \<in> fst ` set kvs. array_index k = None \<and> k \<noteq> proto_key \<Longrightarrow>
   assign_all acc kvs = acc @ kvs"
proof (induction kvs arbitrary: acc)
  case Nil
  show ?case by (simp add: assign_all_Nil)
next
  case (Cons kv kvs)
  obtain k v where kv: "kv = (k, v)" by (cases kv)
  have sp: "set_property acc k v = acc @ [(k, v)]"
    using Cons.prems kv by (intro set_property_append) auto
  have "assign_all (acc @ [(k, v)]) kvs = (acc @ [(k, v)]) @ kvs"
    using Cons.prems kv by (intro Cons.IH) auto
  then show ?case unfolding kv assign_all_Cons sp by simp
qed

lemma keys_entries:
  "map fst (entries props ks) =
     filter (\<lambda>k. case map_of props k of None \<Rightarrow> False | Some val \<Rightarrow> val \<noteq> Undefined) ks"
  by (simp add: entries_def comp_def)

lemma map_of_entries:
  "map_of (entries props ks) k =
     (if k \<in> set ks then
        (case map_of props k of
           None \<Rightarrow> None
         | Some val \<Rightarrow> if val = Undefined then None else Some (normalizeForHashing val))
      else None)"
  unfolding entries_def map_of_map_restrict
  by (auto simp: restrict_map_def split: option.splits)

text \<open>
  C6, as amended.  For an object whose keys are neither array indices nor \<open>__proto__\<close>,
  \<open>normalizeForHashing\<close> returns an object whose keys are the keys of the input whose
  value is not \<open>undefined\<close>, in ascending order of their UTF-16 code units, each with its
  value normalised.  So a key absent from the input is absent from the output, a key
  whose value is \<open>undefined\<close> is dropped, and a key whose value is \<open>null\<close> keeps the
  value \<open>null\<close>.
\<close>

theorem normalizeForHashing_object:
  assumes "distinct (Object_keys props)"
    and "\<forall>k \<in> set (Object_keys props). array_index k = None \<and> k \<noteq> proto_key"
  shows "\<exists>props'.
     normalizeForHashing (Obj props) = Obj props' \<and>
     Object_keys props' =
       sort (filter (\<lambda>k. map_of props k \<noteq> Some Undefined) (Object_keys props)) \<and>
     sorted (Object_keys props') \<and>
     (\<forall>k. map_of props' k =
        (case map_of props k of
           None \<Rightarrow> None
         | Some val \<Rightarrow> if val = Undefined then None else Some (normalizeForHashing val))) \<and>
     (\<forall>k. map_of props k = Some Null \<longrightarrow> map_of props' k = Some Null)"
proof -
  let ?ks = "sort (Object_keys props)"
  let ?P = "\<lambda>k. case map_of props k of None \<Rightarrow> False | Some val \<Rightarrow> val \<noteq> Undefined"
  let ?props' = "entries props ?ks"
  have dk: "distinct (map fst ?props')"
    using assms(1) by (simp add: keys_entries)
  have ok: "\<forall>k \<in> fst ` set ?props'. array_index k = None \<and> k \<noteq> proto_key"
  proof
    fix k assume "k \<in> fst ` set ?props'"
    then have "k \<in> set (map fst ?props')" by simp
    then have "k \<in> set (Object_keys props)" unfolding keys_entries by simp
    then show "array_index k = None \<and> k \<noteq> proto_key" using assms(2) by blast
  qed
  have "assign_all [] ?props' = [] @ ?props'"
    using dk ok by (intro assign_all_append) simp_all
  then have n: "normalizeForHashing (Obj props) = Obj ?props'"
    unfolding normalize_Obj by simp
  have "filter ?P (Object_keys props) =
      filter (\<lambda>k. map_of props k \<noteq> Some Undefined) (Object_keys props)"
  proof (rule filter_cong [OF refl])
    fix k assume "k \<in> set (Object_keys props)"
    then have "map_of props k \<noteq> None"
      by (simp add: Object_keys_def map_of_eq_None_iff)
    then show "?P k = (map_of props k \<noteq> Some Undefined)" by (auto split: option.splits)
  qed
  then have keys: "Object_keys ?props' =
      sort (filter (\<lambda>k. map_of props k \<noteq> Some Undefined) (Object_keys props))"
    unfolding Object_keys_def [of ?props'] keys_entries by (simp add: filter_sort)
  have srt: "sorted (Object_keys ?props')" unfolding keys by simp
  have m: "map_of ?props' k =
        (case map_of props k of
           None \<Rightarrow> None
         | Some val \<Rightarrow> if val = Undefined then None else Some (normalizeForHashing val))" for k
  proof (cases "k \<in> set ?ks")
    case True
    then show ?thesis by (simp add: map_of_entries)
  next
    case False
    then have "map_of props k = None"
      by (simp add: Object_keys_def map_of_eq_None_iff)
    then show ?thesis using False by (simp add: map_of_entries)
  qed
  have nl: "map_of ?props' k = Some Null" if "map_of props k = Some Null" for k
    using that unfolding m by simp
  show ?thesis using n keys srt m nl by blast
qed

theorem normalizeForHashing_object_witness:
  "normalizeForHashing (Obj [(js ''b'', Str (js '' x '')), (js ''c'', Undefined),
       (js ''a'', Null :: int jsvalue)]) =
     Obj [(js ''a'', Null), (js ''b'', Str (js ''x''))]"
proof -
  let ?props = "[(js ''b'', Str (js '' x '')), (js ''c'', Undefined),
       (js ''a'', Null :: int jsvalue)]"
  have ab: "js ''a'' < js ''b''" "js ''b'' < js ''c''" "js ''a'' < js ''c''"
    by (simp_all add: js_Cons js_Nil)
  have d: "distinct (Object_keys ?props)"
    by (simp add: Object_keys_def js_Cons js_Nil)
  have i: "\<forall>k \<in> set (Object_keys ?props). array_index k = None \<and> k \<noteq> proto_key"
    by (simp add: Object_keys_def js_Cons js_Nil array_index_def proto_key_def)
  obtain props' where
    p: "normalizeForHashing (Obj ?props) = Obj props'"
       "Object_keys props' =
          sort (filter (\<lambda>k. map_of ?props k \<noteq> Some Undefined) (Object_keys ?props))"
       "\<forall>k. map_of props' k =
        (case map_of ?props k of
           None \<Rightarrow> None
         | Some val \<Rightarrow> if val = Undefined then None else Some (normalizeForHashing val))"
    using normalizeForHashing_object [OF d i] by blast
  have ne: "js ''b'' \<noteq> js ''a''" "js ''c'' \<noteq> js ''a''" "js ''c'' \<noteq> js ''b''"
    using ab by auto
  have k: "Object_keys props' = [js ''a'', js ''b'']"
    unfolding p(2) using ab ne by (simp add: Object_keys_def insort_key.simps less_imp_le)
  have tr: "trim (js '' x '') = js ''x''"
    by (simp add: trim_def js_Cons js_Nil is_js_whitespace_def)
  have va: "map_of props' (js ''a'') = Some Null"
    using p(3) ne by simp
  have vb: "map_of props' (js ''b'') = Some (Str (js ''x''))"
    using p(3) ne tr by simp
  obtain va' vb' where l: "props' = [(js ''a'', va'), (js ''b'', vb')]"
    using k unfolding Object_keys_def by (auto simp: map_eq_Cons_conv)
  have "props' = [(js ''a'', Null), (js ''b'', Str (js ''x''))]"
    using va vb ne unfolding l by simp
  then show ?thesis using p(1) by simp
qed

text \<open>
  C6 as stated fails: a key whose value is \<open>undefined\<close> does not appear with the value
  \<open>null\<close>, it is dropped; and the order of the keys is that of their UTF-16 code units,
  which is not the order of their code points (U+1F600, the surrogate pair
  \<open>D83D DE00\<close>, comes before U+FF5E).
\<close>

theorem normalizeForHashing_object_counterexample:
  "normalizeForHashing (Obj [(js ''a'', Undefined :: int jsvalue)]) = Obj [] \<and>
   normalizeForHashing (Obj [([0xFF5E], Null), ([0xD83D, 0xDE00], Null :: int jsvalue)]) =
     Obj [([0xD83D, 0xDE00], Null), ([0xFF5E], Null)] \<and>
   scalar_values [0xD83D, 0xDE00] = [0x1F600] \<and> scalar_values [0xFF5E] = [0xFF5E] \<and>
   \<not> sorted [[0x1F600], [0xFF5E :: nat]]"
proof -
  have 1: "normalizeForHashing (Obj [(js ''a'', Undefined :: int jsvalue)]) = Obj []"
    by (simp add: Object_keys_def)
  have lt: "[0xD83D, 0xDE00] < [0xFF5E :: 16 word]" by simp
  have i1: "array_index [0xD83D, 0xDE00] = None" "array_index [0xFF5E] = None"
    by (simp_all add: array_index_def)
  have p: "[0xD83D, 0xDE00] \<noteq> proto_key" "[0xFF5E] \<noteq> proto_key"
    by (simp_all add: proto_key_def js_Cons js_Nil)
  have s: "sort [[0xFF5E], [0xD83D, 0xDE00 :: 16 word]] = [[0xD83D, 0xDE00], [0xFF5E]]"
    using lt by (simp add: insort_key.simps)
  have 2: "normalizeForHashing (Obj [([0xFF5E], Null), ([0xD83D, 0xDE00], Null :: int jsvalue)]) =
     Obj [([0xD83D, 0xDE00], Null), ([0xFF5E], Null)]"
    by (simp add: Object_keys_def s set_property_def i1 p)
  have 3: "scalar_values [0xD83D, 0xDE00] = [0x1F600]"
    by (simp add: is_high_surrogate_def is_low_surrogate_def)
  have 4: "scalar_values [0xFF5E] = [0xFF5E]"
    by (simp add: is_high_surrogate_def is_low_surrogate_def)
  have 5: "\<not> sorted [[0x1F600], [0xFF5E :: nat]]" by simp
  show ?thesis using 1 2 3 4 5 by (intro conjI)
qed

text \<open>
  Outside the amended claim: an object enumerates its array-index keys first, in
  numeric order, so \<open>"9"\<close> comes before \<open>"10"\<close> in the result although \<open>"10"\<close> is the
  smaller string; and the assignment to the key \<open>__proto__\<close> creates no property.
\<close>

lemma normalizeForHashing_index_keys:
  "normalizeForHashing (Obj [(js ''10'', Null), (js ''9'', Null :: int jsvalue)]) =
     Obj [(js ''9'', Null), (js ''10'', Null)]"
proof -
  have lt: "js ''10'' < js ''9''" by (simp add: js_Cons js_Nil)
  have s: "sort [js ''10'', js ''9''] = [js ''10'', js ''9'']"
    using lt by (simp add: insort_key.simps less_imp_le)
  have i: "array_index (js ''10'') = Some 10" "array_index (js ''9'') = Some 9"
    by (simp_all add: array_index_def js_Cons js_Nil)
  have p: "js ''10'' \<noteq> proto_key" "js ''9'' \<noteq> proto_key" "js ''10'' \<noteq> js ''9''"
    "js ''9'' \<noteq> js ''10''"
    by (simp_all add: proto_key_def js_Cons js_Nil)
  show ?thesis
    using p by (simp add: Object_keys_def s set_property_def i p)
qed

lemma normalizeForHashing_proto_key:
  "normalizeForHashing (Obj [(js ''__proto__'', Str (js ''x'') :: int jsvalue)]) = Obj []"
  by (simp add: Object_keys_def set_property_def proto_key_def)

lemma hd_rev_dropWhile_rev:
  assumes "rev (dropWhile P (rev a)) \<noteq> []"
  shows "hd (rev (dropWhile P (rev a))) = hd a"
proof -
  define n where "n = length (takeWhile P (rev a))"
  have "dropWhile P (rev a) = drop n (rev a)"
    unfolding n_def by (rule dropWhile_eq_drop)
  then have e: "rev (dropWhile P (rev a)) = take (length a - n) a"
    by (simp add: rev_drop)
  then have "0 < length a - n" using assms by (cases "length a - n") auto
  then show ?thesis unfolding e by (cases a) (auto simp: take_Cons')
qed

lemma trim_idem: "trim (trim s) = trim s"
proof -
  define a where "a = dropWhile is_js_whitespace s"
  define b where "b = rev (dropWhile is_js_whitespace (rev a))"
  have t: "trim s = b" by (simp add: trim_def a_def b_def)
  have a: "a = [] \<or> \<not> is_js_whitespace (hd a)"
    unfolding a_def by (metis hd_dropWhile)
  have "dropWhile is_js_whitespace b = b"
  proof (cases "b = []")
    case True
    then show ?thesis by simp
  next
    case False
    then have "hd b = hd a" unfolding b_def by (rule hd_rev_dropWhile_rev)
    moreover have "a \<noteq> []" using False unfolding b_def by auto
    ultimately have "\<not> is_js_whitespace (hd b)" using a by simp
    then show ?thesis using False by (cases b) auto
  qed
  then have "trim b = rev (dropWhile is_js_whitespace (rev b))" by (simp add: trim_def)
  also have "\<dots> = b" unfolding b_def by simp
  finally show ?thesis unfolding t .
qed

lemma normalize_not_Undefined: "normalizeForHashing x \<noteq> Undefined"
  by (cases x) simp_all

lemma sort_keys_unique:
  "distinct xs \<Longrightarrow> sorted ys \<Longrightarrow> distinct ys \<Longrightarrow> set xs = set ys \<Longrightarrow> sort xs = ys"
  by (rule sorted_distinct_set_unique) simp_all

lemma normalize_Obj_idem:
  assumes d: "distinct (map fst props)"
    and ih: "\<And>k val. map_of props k = Some val \<Longrightarrow> val \<noteq> Undefined \<Longrightarrow>
               normalizeForHashing (normalizeForHashing val) = normalizeForHashing val"
  shows "normalizeForHashing (normalizeForHashing (Obj props)) = normalizeForHashing (Obj props)"
proof -
  define P where
    "P = (\<lambda>k. case map_of props k of None \<Rightarrow> False | Some val \<Rightarrow> val \<noteq> Undefined)"
  define f where "f = (\<lambda>k. (k, normalizeForHashing (the (map_of props k))))"
  define ks where "ks = sort (Object_keys props)"
  define L where "L = entries props ks"
  define R where "R = assign_all [] L"
  define ks' where "ks' = filter (\<lambda>k. k \<noteq> proto_key) (filter P ks)"
  have L: "L = map f (filter P ks)"
    unfolding L_def entries_def P_def f_def ..
  have n1: "normalizeForHashing (Obj props) = Obj R"
    unfolding normalize_Obj R_def L_def ks_def ..
  have dks: "distinct ks" "sorted ks"
    using d unfolding ks_def Object_keys_def by simp_all
  have kL: "map fst L = filter P ks"
    unfolding L f_def by (simp add: comp_def)
  have dL: "distinct (map fst L)" unfolding kL using dks by simp
  have dR: "distinct (map fst R)" unfolding R_def by (rule distinct_assign_all) simp
  have "fst ` set L = set (map fst L)" by simp
  then have sL: "fst ` set L = {k \<in> set ks. P k}" unfolding kL by simp
  have "fst ` set R = {k \<in> fst ` set L. k \<noteq> proto_key}"
    unfolding R_def keys_assign_all by simp
  then have "fst ` set R = set ks'" unfolding sL ks'_def by auto
  then have sR: "set (map fst R) = set ks'" by simp
  have "sorted ks'" "distinct ks'" unfolding ks'_def using dks by (simp_all add: sorted_wrt_filter)
  then have sort_R: "sort (Object_keys R) = ks'"
    unfolding Object_keys_def using dR sR by (intro sort_keys_unique)
  have pk: "P k" and npk: "k \<noteq> proto_key" and kks: "k \<in> set ks" if "k \<in> set ks'" for k
    using that unfolding ks'_def by auto
  have val: "map_of R k = Some (normalizeForHashing (the (map_of props k)))"
    if k: "k \<in> set ks'" for k
  proof -
    have "k \<in> fst ` set L" unfolding sL using pk [OF k] kks [OF k] by simp
    then have "map_of R k = map_of L k"
      unfolding R_def using npk [OF k] by (simp add: map_of_assign_all [OF dL])
    also have "\<dots> = Some (normalizeForHashing (the (map_of props k)))"
      using pk [OF k] kks [OF k] unfolding L_def P_def
      by (simp add: map_of_entries split: option.splits)
    finally show ?thesis .
  qed
  have e2: "entries R ks' = map f ks'"
  proof -
    have fl: "filter (\<lambda>k. case map_of R k of None \<Rightarrow> False | Some val \<Rightarrow> val \<noteq> Undefined) ks' = ks'"
      by (rule filter_True) (simp add: val normalize_not_Undefined)
    have "map (\<lambda>k. (k, normalizeForHashing (the (map_of R k)))) ks' = map f ks'"
    proof (rule map_cong [OF refl])
      fix k assume k: "k \<in> set ks'"
      obtain v where v: "map_of props k = Some v" "v \<noteq> Undefined"
        using pk [OF k] unfolding P_def by (auto split: option.splits)
      show "(k, normalizeForHashing (the (map_of R k))) = f k"
        unfolding f_def using val [OF k] v ih [OF v] by simp
    qed
    then show ?thesis unfolding entries_def fl .
  qed
  have "filter (\<lambda>kv. fst kv \<noteq> proto_key) L = map f ks'"
    unfolding L ks'_def f_def by (simp add: filter_map comp_def)
  then have "assign_all [] (entries R ks') = assign_all [] L"
    unfolding e2 using assign_all_filter_proto [of "[]" L] by simp
  then have "normalizeForHashing (Obj R) = Obj R"
    unfolding normalize_Obj sort_R by (simp add: R_def [symmetric])
  then show ?thesis unfolding n1 .
qed

lemma normalize_idem:
  "well_formed x \<Longrightarrow> normalizeForHashing (normalizeForHashing x) = normalizeForHashing x"
proof (induction x rule: normalizeForHashing.induct)
  case (6 xs)
  then show ?case by simp
next
  case (7 props)
  have d: "distinct (map fst props)" using 7(2) by simp
  have "normalizeForHashing (normalizeForHashing val) = normalizeForHashing val"
    if "map_of props k = Some val" "val \<noteq> Undefined" for k val
  proof -
    have m: "(k, val) \<in> set props" using that(1) by (rule map_of_SomeD)
    then have w: "well_formed val" using 7(2) by force
    have "k \<in> set (sort (Object_keys props))" using m by (force simp: Object_keys_def)
    then show ?thesis using 7(1) that w by blast
  qed
  then show ?case using d by (rule normalize_Obj_idem [rotated])
qed (simp_all add: trim_idem)

lemma doc_equiv_Undefined: "doc_equiv v w \<Longrightarrow> (v = Undefined) = (w = Undefined)"
  by (cases rule: doc_equiv.cases) auto

lemma entries_cong:
  assumes "\<And>k. k \<in> set ks \<Longrightarrow>
      \<exists>v w. map_of p k = Some v \<and> map_of q k = Some w \<and>
        (v = Undefined) = (w = Undefined) \<and> normalizeForHashing v = normalizeForHashing w"
  shows "entries p ks = entries q ks"
  using assms
proof (induction ks)
  case Nil
  show ?case by (simp add: entries_def)
next
  case (Cons k ks)
  have t: "entries p ks = entries q ks" using Cons by simp
  obtain v w where vw: "map_of p k = Some v" "map_of q k = Some w"
      "(v = Undefined) = (w = Undefined)" "normalizeForHashing v = normalizeForHashing w"
    using Cons.prems [of k] by auto
  have "entries p (k # ks) = (if v = Undefined then [] else [(k, normalizeForHashing v)]) @ entries p ks"
    using vw(1) by (simp add: entries_def)
  moreover have "entries q (k # ks) = (if w = Undefined then [] else [(k, normalizeForHashing w)]) @ entries q ks"
    using vw(2) by (simp add: entries_def)
  ultimately show ?case using t vw(3,4) by simp
qed

lemma normalize_doc_equiv:
  "doc_equiv x y \<Longrightarrow> normalizeForHashing x = normalizeForHashing y"
proof (induction rule: doc_equiv.induct)
  case (same v)
  show ?case by simp
next
  case (strings s t)
  then show ?case by simp
next
  case (arrays xs ys)
  then have "map normalizeForHashing xs = map normalizeForHashing ys"
    by (induction xs ys rule: list_all2_induct) simp_all
  then show ?case by simp
next
  case (objects p q)
  have ks: "sort (Object_keys p) = sort (Object_keys q)"
    unfolding Object_keys_def
    using objects(1,2,3) by (intro sort_keys_unique) simp_all
  have "entries p (sort (Object_keys p)) = entries q (sort (Object_keys p))"
  proof (rule entries_cong)
    fix k assume "k \<in> set (sort (Object_keys p))"
    then have kp: "k \<in> fst ` set p" by (simp add: Object_keys_def)
    then have kq: "k \<in> fst ` set q" using objects(3) by simp
    obtain v where v: "map_of p k = Some v"
      using kp by (cases "map_of p k") (auto simp: map_of_eq_None_iff)
    obtain w where w: "map_of q k = Some w"
      using kq by (cases "map_of q k") (auto simp: map_of_eq_None_iff)
    have "doc_equiv v w" "normalizeForHashing v = normalizeForHashing w"
      using objects(4) v w by blast+
    then show "\<exists>v w. map_of p k = Some v \<and> map_of q k = Some w \<and>
        (v = Undefined) = (w = Undefined) \<and> normalizeForHashing v = normalizeForHashing w"
      using v w doc_equiv_Undefined by blast
  qed
  then show ?case unfolding normalize_Obj ks [symmetric] by simp
qed

text \<open>
  C7.  \<open>normalizeForHashing\<close> is idempotent, and two documents that differ only in the
  order of the keys of their mappings and in the white space at the ends of their strings
  have the same normal form; so have \<open>{a: 1, b: 2}\<close> and \<open>{b: 2, a: 1}\<close>.
\<close>

theorem normalizeForHashing_canonical:
  "(well_formed x \<longrightarrow>
      normalizeForHashing (normalizeForHashing x) = normalizeForHashing x) \<and>
   (doc_equiv x y \<longrightarrow> normalizeForHashing x = normalizeForHashing y) \<and>
   normalizeForHashing (Obj [(js ''a'', Num (1 :: int)), (js ''b'', Num 2)]) =
     normalizeForHashing (Obj [(js ''b'', Num 2), (js ''a'', Num 1)])"
proof -
  have ne: "js ''a'' \<noteq> js ''b''" "js ''b'' \<noteq> js ''a''" by (simp_all add: js_Cons js_Nil)
  have "doc_equiv (Obj [(js ''a'', Num (1 :: int)), (js ''b'', Num 2)])
          (Obj [(js ''b'', Num 2), (js ''a'', Num 1)])"
    using ne by (intro doc_equiv.objects) (auto intro: doc_equiv.same)
  then have "normalizeForHashing (Obj [(js ''a'', Num (1 :: int)), (js ''b'', Num 2)]) =
     normalizeForHashing (Obj [(js ''b'', Num 2), (js ''a'', Num 1)])"
    by (rule normalize_doc_equiv)
  then show ?thesis using normalize_idem [of x] normalize_doc_equiv [of x y] by blast
qed

theorem normalizeForHashing_canonical_witness:
  "well_formed (Obj [(js ''b'', Str (js '' x '')), (js ''a'', Arr [Undefined, Num (1 :: int)])]) \<and>
   doc_equiv (Obj [(js ''b'', Str (js '' x '')), (js ''a'', Arr [Undefined, Num (1 :: int)])])
             (Obj [(js ''a'', Arr [Undefined, Num 1]), (js ''b'', Str (js ''x  ''))]) \<and>
   normalizeForHashing (normalizeForHashing
       (Obj [(js ''b'', Str (js '' x '')), (js ''a'', Arr [Undefined, Num (1 :: int)])])) =
     normalizeForHashing (Obj [(js ''b'', Str (js '' x '')), (js ''a'', Arr [Undefined, Num 1])]) \<and>
   normalizeForHashing (Obj [(js ''b'', Str (js '' x '')), (js ''a'', Arr [Undefined, Num (1 :: int)])]) =
     normalizeForHashing (Obj [(js ''a'', Arr [Undefined, Num 1]), (js ''b'', Str (js ''x  ''))])"
proof -
  let ?x = "Obj [(js ''b'', Str (js '' x '')), (js ''a'', Arr [Undefined, Num (1 :: int)])]"
  let ?y = "Obj [(js ''a'', Arr [Undefined, Num (1 :: int)]), (js ''b'', Str (js ''x  ''))]"
  have ne: "js ''a'' \<noteq> js ''b''" "js ''b'' \<noteq> js ''a''" by (simp_all add: js_Cons js_Nil)
  have w: "well_formed ?x" using ne by simp
  have tr: "trim (js '' x '') = trim (js ''x  '')"
    by (simp add: trim_def js_Cons js_Nil is_js_whitespace_def)
  have e: "doc_equiv ?x ?y"
    using ne tr by (intro doc_equiv.objects) (auto intro: doc_equiv.same doc_equiv.strings)
  have 1: "normalizeForHashing (normalizeForHashing ?x) = normalizeForHashing ?x"
    using normalizeForHashing_canonical [of ?x ?y] w by blast
  have 2: "normalizeForHashing ?x = normalizeForHashing ?y"
    using normalizeForHashing_canonical [of ?x ?y] e by blast
  show ?thesis using w e 1 2 by (intro conjI)
qed

end
